theory Spec2Isabelle
  imports Complex_Main "HOL-Library.Multiset" "HOL-Library.Sublist" "HOL-Library.Stream"
    "HOL-Library.Log_Nat"
begin

section \<open>Data model (types.ts, constants.ts)\<close>

text \<open>
  The enum \<open>Subject\<close> and the string unions \<open>Rank\<close> and \<open>BadgeName\<close> of types.ts.
  JavaScript numbers that hold counts and points (\<open>score\<close>, \<open>total\<close>, \<open>totalPoints\<close>) are
  modelled as \<open>int\<close>: the quiz engine only ever produces integers there, and integer
  arithmetic on doubles is exact below \<open>2 ^ 53\<close>.
\<close>

datatype Subject = Math | Physics | Chemistry | Biology | History | Geography
  | ComputerScience | English | Custom

datatype Rank = Bronze | Silver | Gold | Emerald | Diamond

datatype BadgeName = MathStar | GrammarPro | QuizChamp | KnowledgeSeeker

record QuizResult =
  subject :: Subject
  score :: int
  total_questions :: int
  date :: int

record ProgressEntry =
  entry_date :: int
  points :: int

record User =
  user_id :: string
  user_name :: string
  email :: string
  profilePicture :: "string option"
  className :: "string option"
  rank :: Rank
  totalPoints :: int
  badges :: "BadgeName list"
  progress :: "ProgressEntry list"

text \<open>constants.ts: \<open>POINTS_PER_CORRECT_ANSWER\<close> and the \<open>minPoints\<close> column of \<open>RANKS\<close>.\<close>

definition POINTS_PER_CORRECT_ANSWER :: int where
  "POINTS_PER_CORRECT_ANSWER = 100"

fun RANKS_minPoints :: "Rank \<Rightarrow> int" where
  "RANKS_minPoints Bronze = 0"
| "RANKS_minPoints Silver = 500"
| "RANKS_minPoints Gold = 1500"
| "RANKS_minPoints Emerald = 3000"
| "RANKS_minPoints Diamond = 5000"

text \<open>The order Bronze < Silver < Gold < Emerald < Diamond, as the position of the tier.\<close>

fun rank_level :: "Rank \<Rightarrow> nat" where
  "rank_level Bronze = 0"
| "rank_level Silver = 1"
| "rank_level Gold = 2"
| "rank_level Emerald = 3"
| "rank_level Diamond = 4"

section \<open>utils/profileUtils.ts\<close>

definition getRank :: "int \<Rightarrow> Rank" where
  "getRank pts =
     (if pts \<ge> RANKS_minPoints Diamond then Diamond
      else if pts \<ge> RANKS_minPoints Emerald then Emerald
      else if pts \<ge> RANKS_minPoints Gold then Gold
      else if pts \<ge> RANKS_minPoints Silver then Silver
      else Bronze)"

text \<open>
  A JavaScript \<open>Set\<close> keeps its elements in insertion order and \<open>Array.from\<close> reads them
  back in that order, so the set is a duplicate-free list: \<open>Set_add\<close> appends an element
  that is not there yet, \<open>new_Set\<close> adds the elements of an array one by one.
\<close>

definition Set_add :: "'a list \<Rightarrow> 'a \<Rightarrow> 'a list" where
  "Set_add s x = (if x \<in> set s then s else s @ [x])"

definition new_Set :: "'a list \<Rightarrow> 'a list" where
  "new_Set xs = foldl Set_add [] xs"

text \<open>
  JavaScript numbers are IEEE 754 double-precision values: a quotient or a product is the
  exact result rounded to the nearest number with a 53-bit significand, ties to the even
  significand. \<open>expo x\<close> is the binary exponent of a positive \<open>x\<close> (the \<open>e\<close> with
  \<open>2 ^ e \<le> x < 2 ^ (e + 1)\<close>), \<open>round_even\<close> rounds to the nearest integer, ties to even,
  and \<open>fl\<close> rounds a real to the nearest double. The exponent range of doubles is not
  modelled: the quotients and products of counts below \<open>2 ^ 53\<close> stay far inside it.
\<close>

definition expo :: "real \<Rightarrow> int" where
  "expo x = (if 1 \<le> x then bitlen \<lfloor>x\<rfloor> - 1 else - bitlen (\<lceil>1 / x\<rceil> - 1))"

definition round_even :: "real \<Rightarrow> int" where
  "round_even y =
     (if y - of_int \<lfloor>y\<rfloor> < 1 / 2 then \<lfloor>y\<rfloor>
      else if 1 / 2 < y - of_int \<lfloor>y\<rfloor> then \<lfloor>y\<rfloor> + 1
      else if even \<lfloor>y\<rfloor> then \<lfloor>y\<rfloor> else \<lfloor>y\<rfloor> + 1)"

definition fl :: "real \<Rightarrow> real" where
  "fl x =
     (if x = 0 then 0
      else sgn x * (of_int (round_even (\<bar>x\<bar> / 2 powi (expo \<bar>x\<bar> - 52)))
                     * 2 powi (expo \<bar>x\<bar> - 52)))"

text \<open>
  The test \<open>(score / total) >= 0.9\<close>, on doubles: the quotient and the literal \<open>0.9\<close> are
  both rounded. JavaScript division by zero gives \<open>Infinity\<close> for a positive numerator (which
  passes the test) and \<open>NaN\<close> or \<open>-Infinity\<close> otherwise (which fail it); HOL's \<open>x / 0 = 0\<close>
  is not that, so the case is written out.
\<close>

definition ratio_ge_090 :: "int \<Rightarrow> int \<Rightarrow> bool" where
  "ratio_ge_090 s t =
     (if t = 0 then s > 0 else fl (real_of_int s / real_of_int t) \<ge> fl (9 / 10))"

definition getNewBadges :: "BadgeName list \<Rightarrow> QuizResult \<Rightarrow> QuizResult list \<Rightarrow> BadgeName list" where
  "getNewBadges currentBadges latestResult fullHistory =
     (let earned0 = new_Set currentBadges;
          fullHistoryWithLatest = fullHistory @ [latestResult];
          earned1 = (if subject latestResult = Math
                        \<and> ratio_ge_090 (score latestResult) (total_questions latestResult)
                     then Set_add earned0 MathStar else earned0);
          earned2 = (if subject latestResult = English
                        \<and> ratio_ge_090 (score latestResult) (total_questions latestResult)
                     then Set_add earned1 GrammarPro else earned1);
          earned3 = (if length fullHistoryWithLatest \<ge> 10
                     then Set_add earned2 QuizChamp else earned2);
          totalCorrectAnswers = foldl (\<lambda>sum result. sum + score result) 0 fullHistoryWithLatest;
          earned4 = (if totalCorrectAnswers \<ge> 100
                     then Set_add earned3 KnowledgeSeeker else earned3)
      in earned4)"

text \<open>
  \<open>Math.round\<close> gives the integer nearest to a double, halves upwards. In
  \<open>calculateAccuracy\<close> the two sums are sums of integers, exact in doubles below \<open>2 ^ 53\<close>;
  the quotient and the product by 100 are each rounded to a double.
\<close>

definition Math_round :: "real \<Rightarrow> int" where
  "Math_round x = \<lfloor>x + 1 / 2\<rfloor>"


section \<open>App state: addQuizResult\<close>

text \<open>
  The two pieces of React state that \<open>addQuizResult\<close> touches. The updater given to
  \<open>setUser\<close> returns \<open>null\<close> for a \<open>null\<close> user; \<open>now\<close> is the value of \<open>Date.now()\<close>.
\<close>

record AppState =
  user :: "User option"
  quizHistory :: "QuizResult list"

definition addQuizResult_user :: "int \<Rightarrow> QuizResult list \<Rightarrow> QuizResult \<Rightarrow> User option \<Rightarrow> User option" where
  "addQuizResult_user now history result prevUser =
     (case prevUser of
        None \<Rightarrow> None
      | Some u \<Rightarrow>
          (let pointsEarned = score result * 25;
               newTotalPoints = totalPoints u + pointsEarned;
               newRank = getRank newTotalPoints;
               fullHistory = history @ [result];
               newBadges = getNewBadges (badges u) result fullHistory
           in Some (u\<lparr>totalPoints := newTotalPoints,
                      rank := newRank,
                      badges := newBadges,
                      progress := progress u @ [\<lparr>entry_date = now, points = newTotalPoints\<rparr>]\<rparr>)))"

definition addQuizResult :: "int \<Rightarrow> QuizResult \<Rightarrow> AppState \<Rightarrow> AppState" where
  "addQuizResult now result st =
     \<lparr>user = addQuizResult_user now (quizHistory st) result (user st),
      quizHistory = quizHistory st @ [result]\<rparr>"

text \<open>
  The default user that the app creates when local storage holds none; \<open>now\<close> is the value
  of \<open>Date.now()\<close>.
\<close>

definition defaultUser :: "int \<Rightarrow> User" where
  "defaultUser now =
     \<lparr>user_id = ''default-user'', user_name = ''Alex Johnson'', email = ''alex.j@example.com'',
      profilePicture = None, className = None,
      rank = Bronze, totalPoints = 125, badges = [],
      progress = [\<lparr>entry_date = now - 86400000, points = 50\<rparr>,
                  \<lparr>entry_date = now, points = 125\<rparr>]\<rparr>"

section \<open>components/Chat.tsx: the streaming chat exchange\<close>

text \<open>
  Messages and sessions of types.ts. An optional field is an \<open>option\<close>; \<open>truthy\<close> is the
  JavaScript test of an optional boolean. The fields \<open>modality\<close> and \<open>feedback\<close> are left
  out: the exchange never reads or writes them. Strings are lists of characters, a character
  standing for one UTF-16 code unit (what \<open>length\<close> and \<open>slice\<close> count). \<open>RoleMissing\<close>
  stands for an object without a \<open>role\<close>, which \<open>{...undefined}\<close> builds.
\<close>

datatype Role = RoleUser | RoleModel | RoleMissing

type_synonym Sources = "(string \<times> string) list"

record ChatMessage =
  role :: Role
  content :: string
  isStreaming :: "bool option"
  imageUrl :: "string option"
  thinkingMode :: "bool option"
  sources :: "Sources option"

record ChatSession =
  session_id :: string
  session_name :: string
  messages :: "ChatMessage list"
  createdAt :: int

definition truthy :: "bool option \<Rightarrow> bool" where
  "truthy b = (b = Some True)"

text \<open>
  The component state that an exchange touches, and the local variables of
  \<open>handleSendMessage\<close> that its callbacks close over. \<open>framePending\<close> says that the animation
  frame requested last (\<open>streamAnimation\<close>) has neither run nor been cancelled.
\<close>

record ChatState =
  sessions :: "ChatSession list"
  activeSessionId :: "string option"
  isLoading :: bool
  error :: "string option"
  currentSessionId :: string
  streamText :: string
  displayedText :: string
  isComplete :: bool
  framePending :: bool
  finalSources :: "Sources option"

definition updateSession :: "string \<Rightarrow> (ChatSession \<Rightarrow> ChatSession) \<Rightarrow> ChatSession list \<Rightarrow> ChatSession list" where
  "updateSession sessionId updater prev =
     map (\<lambda>s. if session_id s = sessionId then updater s else s) prev"

text \<open>
  \<open>handleSendMessage\<close> up to the call of \<open>askTutor\<close>: the guard, the user's message, the
  placeholder and the first animation frame request. \<open>userMessageText\<close> is \<open>input.trim()\<close>,
  \<open>userImage\<close> the object URL of the attached file if there is one. The second guard of the
  source needs a falsy \<open>activeSessionId\<close>, which the first one has already turned away.
\<close>

definition handleSendMessage :: "string \<Rightarrow> string option \<Rightarrow> bool \<Rightarrow> ChatState \<Rightarrow> ChatState" where
  "handleSendMessage userMessageText userImage isThinkingMode st =
     (case activeSessionId st of
        None \<Rightarrow> st
      | Some sid \<Rightarrow>
          if (userMessageText = [] \<and> userImage = None) \<or> isLoading st \<or> sid = [] then st
          else
            let newMessage = \<lparr>role = RoleUser, content = userMessageText, isStreaming = None,
                              imageUrl = userImage, thinkingMode = Some isThinkingMode,
                              sources = None\<rparr>;
                placeholder = \<lparr>role = RoleModel, content = [], isStreaming = Some True,
                               imageUrl = None, thinkingMode = None, sources = None\<rparr>;
                sessions1 = updateSession sid
                  (\<lambda>session. session\<lparr>messages := messages session @ [newMessage]\<rparr>) (sessions st);
                sessions2 = updateSession sid
                  (\<lambda>session. session\<lparr>messages := messages session @ [placeholder]\<rparr>) sessions1
            in st\<lparr>sessions := sessions2, isLoading := True, error := None,
                  currentSessionId := sid, streamText := [], displayedText := [],
                  isComplete := False, framePending := True, finalSources := None\<rparr>)"

text \<open>The two updaters of \<open>animateStream\<close>: the reveal of \<open>nextContent\<close> and the finalisation.\<close>

definition revealContent :: "string \<Rightarrow> ChatSession \<Rightarrow> ChatSession" where
  "revealContent nextContent session =
     (let msgs = messages session in
      if length msgs = 0 then session
      else let lastMsgIndex = length msgs - 1;
               lastMsg = msgs ! lastMsgIndex
           in if role lastMsg = RoleModel \<and> truthy (isStreaming lastMsg)
              then session\<lparr>messages := msgs[lastMsgIndex := lastMsg\<lparr>content := nextContent\<rparr>]\<rparr>
              else session)"

definition spread_undefined :: ChatMessage where
  "spread_undefined = \<lparr>role = RoleMissing, content = [], isStreaming = None,
                        imageUrl = None, thinkingMode = None, sources = None\<rparr>"

definition finalizeMessage :: "Sources option \<Rightarrow> ChatSession \<Rightarrow> ChatSession" where
  "finalizeMessage srcs session =
     (let msgs = messages session;
          lastMsg = (if msgs = [] then spread_undefined else msgs ! (length msgs - 1))
      in session\<lparr>messages := butlast msgs @ [lastMsg\<lparr>isStreaming := Some False, sources := srcs\<rparr>]\<rparr>)"

text \<open>
  \<open>animateStream\<close>. The text revealed by a frame that finds the display behind the buffer is
  \<open>nextContentOf\<close>: \<open>streamText.slice(0, displayedText.length + chunk)\<close>, the quotient
  \<open>delta / 1.5\<close> being a double.
\<close>

definition nextContentOf :: "ChatState \<Rightarrow> string" where
  "nextContentOf st =
     (let delta = length (streamText st) - length (displayedText st);
          chunk = max 1 (Math_round (fl (real delta / (3 / 2))))
      in take (length (displayedText st) + nat chunk) (streamText st))"

definition animateStream :: "ChatState \<Rightarrow> ChatState" where
  "animateStream st =
     (let st1 =
        (if length (displayedText st) < length (streamText st) then
           let nextContent = nextContentOf st
           in st\<lparr>displayedText := nextContent,
                 sessions := updateSession (currentSessionId st) (revealContent nextContent)
                               (sessions st)\<rparr>
         else st)
      in if \<not> isComplete st1 \<or> length (displayedText st1) < length (streamText st1)
         then st1\<lparr>framePending := True\<rparr>
         else st1\<lparr>sessions := updateSession (currentSessionId st1)
                                 (finalizeMessage (finalSources st1)) (sessions st1),
                  isLoading := False\<rparr>)"

text \<open>
  What can happen while the exchange is in flight: \<open>askTutor\<close> hands over a chunk, the
  browser runs the requested animation frame, \<open>askTutor\<close> resolves with the sources or
  rejects with a thrown value (the \<open>catch\<close> block, then \<open>finally\<close>), and the title
  requested for a first message arrives.
\<close>

datatype Thrown = ErrorObject string | OtherValue

datatype Event = OnChunk string | AnimationFrame | Resolved "Sources option"
  | Rejected Thrown | TitleGenerated string

fun step :: "ChatState \<Rightarrow> Event \<Rightarrow> ChatState" where
  "step st (OnChunk chunk) =
     (if chunk \<noteq> [] then st\<lparr>streamText := streamText st @ chunk\<rparr> else st)"
| "step st AnimationFrame =
     (if framePending st then animateStream (st\<lparr>framePending := False\<rparr>) else st)"
| "step st (Resolved srcs) = st\<lparr>finalSources := srcs, isComplete := True\<rparr>"
| "step st (Rejected err) =
     st\<lparr>error := Some (case err of ErrorObject msg \<Rightarrow> msg
                          | OtherValue \<Rightarrow> ''Failed to send message.''),
        isLoading := False,
        framePending := False,
        sessions := updateSession (currentSessionId st)
          (\<lambda>session. session\<lparr>messages := filter (\<lambda>m. \<not> truthy (isStreaming m)) (messages session)\<rparr>)
          (sessions st),
        isComplete := True\<rparr>"
| "step st (TitleGenerated title) =
     st\<lparr>sessions := updateSession (currentSessionId st)
          (\<lambda>s. s\<lparr>session_name := title\<rparr>) (sessions st)\<rparr>"

declare step.simps [simp del]

definition run :: "ChatState \<Rightarrow> Event list \<Rightarrow> ChatState" where
  "run st evs = foldl step st evs"

text \<open>
  What the view renders for the exchange: the messages of the session with the exchange's id,
  and the content of the last of them, the bot message.
\<close>

definition sessionMessages :: "ChatState \<Rightarrow> ChatMessage list" where
  "sessionMessages st =
     (case find (\<lambda>s. session_id s = currentSessionId st) (sessions st) of
        None \<Rightarrow> []
      | Some s \<Rightarrow> messages s)"

definition rendered :: "ChatState \<Rightarrow> string" where
  "rendered st = (case sessionMessages st of [] \<Rightarrow> [] | m # ms \<Rightarrow> content (last (m # ms)))"


fun beforeSettled :: "Event \<Rightarrow> bool" where
  "beforeSettled (Resolved _) = False"
| "beforeSettled (Rejected _) = False"
| "beforeSettled _ = True"

fun afterSettled :: "Event \<Rightarrow> bool" where
  "afterSettled AnimationFrame = True"
| "afterSettled (TitleGenerated _) = True"
| "afterSettled _ = False"

text \<open>
  The user's message and the placeholder that \<open>handleSendMessage\<close> appends, and the
  condition under which it starts an exchange in the session \<open>sid\<close>: the guard lets the call
  through and the active session exists.
\<close>

definition userMessage :: "string \<Rightarrow> string option \<Rightarrow> bool \<Rightarrow> ChatMessage" where
  "userMessage userMessageText userImage isThinkingMode =
     \<lparr>role = RoleUser, content = userMessageText, isStreaming = None,
      imageUrl = userImage, thinkingMode = Some isThinkingMode, sources = None\<rparr>"

definition messagesOf :: "string \<Rightarrow> ChatSession list \<Rightarrow> ChatMessage list" where
  "messagesOf sid ss =
     (case find (\<lambda>s. session_id s = sid) ss of None \<Rightarrow> [] | Some s \<Rightarrow> messages s)"

definition canSend :: "string \<Rightarrow> string option \<Rightarrow> string \<Rightarrow> ChatState \<Rightarrow> bool" where
  "canSend userMessageText userImage sid st =
     (activeSessionId st = Some sid \<and> sid \<noteq> [] \<and> \<not> isLoading st
      \<and> (userMessageText \<noteq> [] \<or> userImage \<noteq> None)
      \<and> find (\<lambda>s. session_id s = sid) (sessions st) \<noteq> None)"

text \<open>
  The component state after \<open>handleNewChat\<close> on the initial state: one empty session,
  which is the active one. \<open>sid\<close> is \<open>Date.now().toString()\<close>.
\<close>

definition newChat :: "string \<Rightarrow> int \<Rightarrow> ChatState" where
  "newChat sid now =
     \<lparr>sessions = [\<lparr>session_id = sid, session_name = ''New Conversation'', messages = [],
                   createdAt = now\<rparr>],
      activeSessionId = Some sid, isLoading = False, error = None,
      currentSessionId = [], streamText = [], displayedText = [],
      isComplete = False, framePending = False, finalSources = None\<rparr>"

text \<open>
  The invariant of an exchange that has not failed, over the messages \<open>base\<close> in front of
  the bot message: the bot message is the last one and shows \<open>displayedText\<close>, which is a
  prefix of \<open>streamText\<close>; while a frame is pending the message is marked streaming; once
  the loop has stopped, everything received is shown and the message is finalised.
\<close>

definition exchangeInv :: "ChatMessage list \<Rightarrow> ChatState \<Rightarrow> bool" where
  "exchangeInv base st =
     (sessionMessages st \<noteq> [] \<and> butlast (sessionMessages st) = base
      \<and> role (last (sessionMessages st)) = RoleModel
      \<and> content (last (sessionMessages st)) = displayedText st
      \<and> prefix (displayedText st) (streamText st)
      \<and> (if framePending st then isStreaming (last (sessionMessages st)) = Some True
          else isStreaming (last (sessionMessages st)) = Some False
               \<and> sources (last (sessionMessages st)) = finalSources st
               \<and> displayedText st = streamText st \<and> isComplete st \<and> \<not> isLoading st))"

text \<open>
  The event lists of an exchange that does not fail: chunks arrive and the promise resolves
  only while it is unsettled (\<open>settled\<close> says whether it is settled at the start of the list),
  and it is never rejected.
\<close>

fun admits :: "bool \<Rightarrow> Event list \<Rightarrow> bool" where
  "admits settled [] = True"
| "admits settled (OnChunk chunk # evs) = (\<not> settled \<and> admits settled evs)"
| "admits settled (Resolved srcs # evs) = (\<not> settled \<and> admits True evs)"
| "admits settled (Rejected err # evs) = False"
| "admits settled (AnimationFrame # evs) = admits settled evs"
| "admits settled (TitleGenerated title # evs) = admits settled evs"

section \<open>components/Chat.tsx: scheduling of live-session audio\<close>

text \<open>
  The audio part of \<open>onmessage\<close>. \<open>nextStartTime\<close> is \<open>nextStartTimeRef.current\<close>, which is 0
  when a session starts; \<open>scheduled\<close> lists the sources started so far as start time and
  duration. The arguments are the reading of \<open>outputCtx.currentTime\<close> and the duration of
  the decoded buffer, if the message carries audio. Times are real numbers of seconds.
\<close>

record LiveAudio =
  nextStartTime :: real
  scheduled :: "(real \<times> real) list"

definition sessionStart :: LiveAudio where
  "sessionStart = \<lparr>nextStartTime = 0, scheduled = []\<rparr>"

definition onmessage :: "LiveAudio \<Rightarrow> real \<times> real option \<Rightarrow> LiveAudio" where
  "onmessage st msg =
     (case msg of
        (currentTime, None) \<Rightarrow> st
      | (currentTime, Some duration) \<Rightarrow>
          let next = max (nextStartTime st) currentTime
          in \<lparr>nextStartTime = next + duration,
              scheduled = scheduled st @ [(next, duration)]\<rparr>)"

definition scheduleAll :: "(real \<times> real) list \<Rightarrow> (real \<times> real) list" where
  "scheduleAll buffers =
     scheduled (foldl onmessage sessionStart (map (\<lambda>(t, d). (t, Some d)) buffers))"

text \<open>The cursor \<open>nextStartTimeRef.current\<close> after the buffers have been handled.\<close>

definition cursorAfter :: "(real \<times> real) list \<Rightarrow> real" where
  "cursorAfter buffers =
     nextStartTime (foldl onmessage sessionStart (map (\<lambda>(t, d). (t, Some d)) buffers))"

text \<open>
  Every buffer after the first arrives no later than the end of the buffer before it: the
  clock has not passed the cursor when \<open>onmessage\<close> reads it.
\<close>

definition arrivesInTime :: "(real \<times> real) list \<Rightarrow> bool" where
  "arrivesInTime buffers =
     list_all (\<lambda>i. fst (buffers ! Suc i)
                      \<le> fst (scheduleAll buffers ! i) + snd (scheduleAll buffers ! i))
       [0..<length buffers - 1]"

section \<open>ImageGenerator: saving the history\<close>

text \<open>
  \<open>localStorage.setItem\<close> either stores the payload or throws; \<open>setItem\<close> says which, for
  each payload. A thrown value is described by what the handler tests. The function returns
  the payloads it has tried to store, in order.
\<close>

record ThrownError =
  isDOMException :: bool
  error_name :: string

definition isQuotaError :: "ThrownError \<Rightarrow> bool" where
  "isQuotaError e = (isDOMException e \<and>
     (error_name e = ''QuotaExceededError'' \<or> error_name e = ''NS_ERROR_DOM_QUOTA_REACHED''))"

function saveHistoryWithRetry :: "('a list \<Rightarrow> ThrownError option) \<Rightarrow> 'a list \<Rightarrow> 'a list list" where
  "saveHistoryWithRetry setItem data =
     data # (case setItem data of
               None \<Rightarrow> []
             | Some e \<Rightarrow>
                 if isQuotaError e
                 then (if length data > 0 then saveHistoryWithRetry setItem (butlast data) else [])
                 else [])"
  by pat_completeness auto
termination
  by (relation "measure (\<lambda>(setItem, data). length data)") auto

declare saveHistoryWithRetry.simps [simp del]

text \<open>A storage that has room for payloads of up to \<open>n\<close> entries and is full beyond.\<close>

definition roomFor :: "nat \<Rightarrow> 'a list \<Rightarrow> ThrownError option" where
  "roomFor n payload =
     (if length payload > n
      then Some \<lparr>isDOMException = True, error_name = ''QuotaExceededError''\<rparr>
      else None)"

section \<open>components/Quiz.tsx: shuffleArray\<close>

text \<open>
  \<open>Math.floor(Math.random() * (i + 1))\<close> for a value \<open>r\<close> of \<open>Math.random()\<close>, over the reals.
\<close>

definition random_index :: "real \<Rightarrow> nat \<Rightarrow> nat" where
  "random_index r i = nat \<lfloor>r * real (i + 1)\<rfloor>"

text \<open>
  The loop \<open>for (let i = newArray.length - 1; i > 0; i--)\<close> on the local array, given the
  indices \<open>j\<close> that the iterations draw, in the order of the iterations. The destructuring
  swap reads both elements first and then writes \<open>newArray[i]\<close> and \<open>newArray[j]\<close>.
\<close>

fun shuffle_loop :: "nat \<Rightarrow> nat list \<Rightarrow> 'a list \<Rightarrow> 'a list" where
  "shuffle_loop (Suc i) (j # js) newArray =
     shuffle_loop i js (newArray[Suc i := newArray ! j, j := newArray ! Suc i])"
| "shuffle_loop _ _ newArray = newArray"

text \<open>
  \<open>shuffleArray\<close>: \<open>rs\<close> is the stream of values that the calls of \<open>Math.random()\<close> return; an
  array of length \<open>n\<close> makes \<open>n - 1\<close> calls, for \<open>i = n - 1\<close> down to 1.
\<close>

definition drawn_indices :: "real stream \<Rightarrow> nat \<Rightarrow> nat list" where
  "drawn_indices rs n = map2 random_index (stake (n - 1) rs) (rev [1..<n])"

definition shuffleArray :: "real stream \<Rightarrow> 'a list \<Rightarrow> 'a list" where
  "shuffleArray rs array =
     (let newArray = array
      in shuffle_loop (length newArray - 1) (drawn_indices rs (length newArray)) newArray)"

text \<open>
  The same with the arrays in a store (a list of arrays, an array's address being its
  position): \<open>[...array]\<close> allocates a new array, the loop works on it, and its address is
  returned.
\<close>

definition shuffleArray_store :: "real stream \<Rightarrow> nat \<Rightarrow> 'a list list \<Rightarrow> nat \<times> 'a list list" where
  "shuffleArray_store rs array store =
     (let newArray = length store;
          store1 = store @ [store ! array];
          store2 = store1[newArray := shuffle_loop (length (store1 ! newArray) - 1)
                                        (drawn_indices rs (length (store1 ! newArray)))
                                        (store1 ! newArray)]
      in (newArray, store2))"

text \<open>
  All the index sequences that the loop can draw when it starts at \<open>i\<close>: the first index is
  one of \<open>0..i\<close>, the next one of \<open>0..i - 1\<close>, and so on down to \<open>i = 1\<close>.
\<close>

fun all_draws :: "nat \<Rightarrow> nat list list" where
  "all_draws 0 = [[]]"
| "all_draws (Suc i) = concat (map (\<lambda>j. map ((#) j) (all_draws i)) [0..<Suc (Suc i)])"

text \<open>
  Random values on a grid: \<open>all_grids M len\<close> lists the vectors of \<open>len\<close> numbers below \<open>M\<close>,
  and \<open>grid_stream M gs\<close> is the stream of random values \<open>g / M\<close> for the numbers \<open>g\<close> of
  such a vector (followed by zeros, which a shuffle of an array of length \<open>len + 1\<close> never
  reads).
\<close>

fun all_grids :: "nat \<Rightarrow> nat \<Rightarrow> nat list list" where
  "all_grids M 0 = [[]]"
| "all_grids M (Suc len) = concat (map (\<lambda>g. map ((#) g) (all_grids M len)) [0..<M])"

definition grid_stream :: "nat \<Rightarrow> nat list \<Rightarrow> real stream" where
  "grid_stream M gs = map (\<lambda>g. real g / real M) gs @- sconst 0"

section \<open>Rank derivation\<close>

lemma getRank_cases:
  "getRank p = (if p \<ge> 5000 then Diamond else if p \<ge> 3000 then Emerald
                else if p \<ge> 1500 then Gold else if p \<ge> 500 then Silver else Bronze)"
  by (simp add: getRank_def)

lemma getRank_mono: "p1 \<le> p2 \<Longrightarrow> rank_level (getRank p1) \<le> rank_level (getRank p2)"
  by (simp add: getRank_cases)

text \<open>
  Claim C1. \<open>getRank\<close> is a step function of the points: 0 gives Bronze, 500 Silver, 1500 Gold,
  3000 Emerald and 5000 Diamond, each of these thresholds is the least point value of its
  tier (a tier is exactly the half-open interval from its threshold to the next), and the
  rank never decreases when the points increase.
\<close>

theorem getRank_step_monotone:
  "getRank 0 = Bronze \<and> getRank 500 = Silver \<and> getRank 1500 = Gold
   \<and> getRank 3000 = Emerald \<and> getRank 5000 = Diamond
   \<and> (getRank p = Bronze \<longleftrightarrow> p < 500)
   \<and> (getRank p = Silver \<longleftrightarrow> 500 \<le> p \<and> p < 1500)
   \<and> (getRank p = Gold \<longleftrightarrow> 1500 \<le> p \<and> p < 3000)
   \<and> (getRank p = Emerald \<longleftrightarrow> 3000 \<le> p \<and> p < 5000)
   \<and> (getRank p = Diamond \<longleftrightarrow> 5000 \<le> p)
   \<and> (p1 \<le> p2 \<longrightarrow> rank_level (getRank p1) \<le> rank_level (getRank p2))"
  using getRank_mono [of p1 p2] by (simp add: getRank_cases)

theorem getRank_step_monotone_witness:
  "(499::int) \<le> 500 \<and> getRank 499 = Bronze \<and> getRank 500 = Silver
   \<and> rank_level (getRank 499) \<le> rank_level (getRank 500)"
  using getRank_step_monotone [of 499 499 500] by simp

section \<open>Badges\<close>

lemma set_Set_add: "set (Set_add s x) = insert x (set s)"
  by (auto simp: Set_add_def)

lemma set_foldl_Set_add: "set (foldl Set_add acc xs) = set acc \<union> set xs"
  by (induction xs arbitrary: acc) (auto simp: set_Set_add)

lemma set_new_Set: "set (new_Set xs) = set xs"
  by (simp add: new_Set_def set_foldl_Set_add)

lemma getNewBadges_keeps: "set bs \<subseteq> set (getNewBadges bs r h)"
  by (auto simp: getNewBadges_def Let_def set_new_Set set_Set_add)

lemma getNewBadges_sequence_keeps:
  "set bs \<subseteq> set (foldl (\<lambda>b (r, h). getNewBadges b r h) bs evals)"
proof (induction evals arbitrary: bs)
  case Nil
  show ?case by simp
next
  case (Cons e evals)
  obtain r h where e: "e = (r, h)" by (cases e)
  have "set bs \<subseteq> set (getNewBadges bs r h)" by (rule getNewBadges_keeps)
  also have "\<dots> \<subseteq> set (foldl (\<lambda>b (r, h). getNewBadges b r h) (getNewBadges bs r h) evals)"
    by (rule Cons.IH)
  finally show ?case by (simp add: e)
qed

text \<open>
  Claim C2. Badge awarding is monotone: whatever the earned badges, the latest result and
  the history are, every earned badge is among the badges that \<open>getNewBadges\<close> returns;
  hence no badge disappears along any sequence of evaluations, each on a result and a
  history of its own.
\<close>

theorem getNewBadges_superset:
  "set currentBadges \<subseteq> set (getNewBadges currentBadges latestResult fullHistory)
   \<and> set currentBadges
       \<subseteq> set (foldl (\<lambda>b (r, h). getNewBadges b r h) currentBadges evaluations)"
  by (simp add: getNewBadges_keeps getNewBadges_sequence_keeps)

theorem getNewBadges_superset_witness:
  "set [GrammarPro, QuizChamp]
     \<subseteq> set (getNewBadges [GrammarPro, QuizChamp]
               \<lparr>subject = Math, score = 9, total_questions = 10, date = 0\<rparr> [])"
  by (rule conjunct1 [OF getNewBadges_superset])

section \<open>Accuracy\<close>




























section \<open>Points and rank under addQuizResult\<close>

lemma addQuizResult_user_Some:
  "user (addQuizResult now result st) =
     (case user st of
        None \<Rightarrow> None
      | Some u \<Rightarrow>
          Some (u\<lparr>totalPoints := totalPoints u + score result * 25,
                 rank := getRank (totalPoints u + score result * 25),
                 badges := getNewBadges (badges u) result (quizHistory st @ [result]),
                 progress := progress u
                    @ [\<lparr>entry_date = now, points = totalPoints u + score result * 25\<rparr>]\<rparr>))"
  by (simp add: addQuizResult_def addQuizResult_user_def Let_def split: option.split)

text \<open>
  Claim C6. For every state with a user and every quiz result with a non-negative score,
  \<open>addQuizResult\<close> leaves a user whose \<open>totalPoints\<close> are not lower than before and whose
  stored \<open>rank\<close> is \<open>getRank\<close> of the new \<open>totalPoints\<close>.
\<close>

theorem addQuizResult_points_monotone_rank_derived:
  assumes "user st = Some u" and "0 \<le> score result"
  shows "\<exists>u'. user (addQuizResult now result st) = Some u'
           \<and> totalPoints u \<le> totalPoints u'
           \<and> rank u' = getRank (totalPoints u')"
  using assms by (simp add: addQuizResult_user_Some)

theorem addQuizResult_points_monotone_rank_derived_witness:
  "\<exists>u'. user (addQuizResult 7 \<lparr>subject = Math, score = 15, total_questions = 20, date = 7\<rparr>
                 \<lparr>user = Some (defaultUser 5), quizHistory = []\<rparr>) = Some u'
         \<and> totalPoints (defaultUser 5) \<le> totalPoints u'
         \<and> rank u' = getRank (totalPoints u')"
  using addQuizResult_points_monotone_rank_derived
    [of "\<lparr>user = Some (defaultUser 5), quizHistory = []\<rparr>" "defaultUser 5"
        "\<lparr>subject = Math, score = 15, total_questions = 20, date = 7\<rparr>" 7]
  by simp

text \<open>
  Claim C10. \<open>addQuizResult\<close> adds exactly 25 points per correct answer to \<open>totalPoints\<close>,
  while the constant \<open>POINTS_PER_CORRECT_ANSWER\<close> of constants.ts is 100 and takes no part in
  the update.
\<close>

theorem addQuizResult_25_points_per_answer:
  assumes "user st = Some u"
  shows "\<exists>u'. user (addQuizResult now result st) = Some u'
           \<and> totalPoints u' = totalPoints u + 25 * score result
           \<and> POINTS_PER_CORRECT_ANSWER = 100
           \<and> (score result \<noteq> 0 \<longrightarrow>
                totalPoints u' \<noteq> totalPoints u + POINTS_PER_CORRECT_ANSWER * score result)"
  using assms by (simp add: addQuizResult_user_Some POINTS_PER_CORRECT_ANSWER_def)

theorem addQuizResult_25_points_per_answer_witness:
  "\<exists>u'. user (addQuizResult 7 \<lparr>subject = Math, score = 8, total_questions = 10, date = 7\<rparr>
                 \<lparr>user = Some (defaultUser 5), quizHistory = []\<rparr>) = Some u'
         \<and> totalPoints u' = 325"
proof -
  have "totalPoints (defaultUser 5) = 125"
    by (simp add: defaultUser_def)
  with addQuizResult_25_points_per_answer
    [of "\<lparr>user = Some (defaultUser 5), quizHistory = []\<rparr>" "defaultUser 5" 7
        "\<lparr>subject = Math, score = 8, total_questions = 10, date = 7\<rparr>"]
  show ?thesis by auto
qed

section \<open>Saving the image history\<close>

lemma saveHistoryWithRetry_nonempty: "saveHistoryWithRetry setItem data \<noteq> []"
  by (subst saveHistoryWithRetry.simps) simp

lemma saveHistoryWithRetry_hd: "saveHistoryWithRetry setItem data ! 0 = data"
  by (subst saveHistoryWithRetry.simps) simp

lemma saveHistoryWithRetry_tail:
  "saveHistoryWithRetry setItem data =
     data # (if (\<exists>e. setItem data = Some e \<and> isQuotaError e) \<and> data \<noteq> []
             then saveHistoryWithRetry setItem (butlast data) else [])"
  by (subst saveHistoryWithRetry.simps) (auto split: option.splits)

lemma saveHistoryWithRetry_retry:
  "(\<exists>e. setItem data = Some e \<and> isQuotaError e) \<and> data \<noteq> []
   \<Longrightarrow> saveHistoryWithRetry setItem data = data # saveHistoryWithRetry setItem (butlast data)"
  by (subst saveHistoryWithRetry_tail) auto

lemma saveHistoryWithRetry_stop:
  "\<not> ((\<exists>e. setItem data = Some e \<and> isQuotaError e) \<and> data \<noteq> [])
   \<Longrightarrow> saveHistoryWithRetry setItem data = [data]"
  by (subst saveHistoryWithRetry_tail) auto

lemma saveHistoryWithRetry_length:
  "length (saveHistoryWithRetry setItem data) \<le> length data + 1"
proof (induction data rule: length_induct)
  case (1 data)
  show ?case
  proof (cases "(\<exists>e. setItem data = Some e \<and> isQuotaError e) \<and> data \<noteq> []")
    case True
    then have "length (butlast data) < length data" by simp
    with 1 have "length (saveHistoryWithRetry setItem (butlast data)) \<le> length (butlast data) + 1"
      by blast
    with True show ?thesis
      by (simp add: saveHistoryWithRetry_retry)
  next
    case False
    then show ?thesis by (simp add: saveHistoryWithRetry_stop)
  qed
qed

lemma saveHistoryWithRetry_nth:
  "k < length (saveHistoryWithRetry setItem data)
   \<Longrightarrow> saveHistoryWithRetry setItem data ! k = take (length data - k) data"
proof (induction k arbitrary: data)
  case 0
  show ?case by (simp add: saveHistoryWithRetry_hd)
next
  case (Suc k)
  have retry: "(\<exists>e. setItem data = Some e \<and> isQuotaError e) \<and> data \<noteq> []"
  proof (rule ccontr)
    assume "\<not> ?thesis"
    then have "saveHistoryWithRetry setItem data = [data]"
      by (rule saveHistoryWithRetry_stop)
    with Suc.prems show False by simp
  qed
  then have unfold: "saveHistoryWithRetry setItem data
                       = data # saveHistoryWithRetry setItem (butlast data)"
    by (rule saveHistoryWithRetry_retry)
  with Suc.prems have "k < length (saveHistoryWithRetry setItem (butlast data))" by simp
  then have "saveHistoryWithRetry setItem (butlast data) ! k
               = take (length (butlast data) - k) (butlast data)"
    by (rule Suc.IH)
  also have "\<dots> = take (length data - Suc k) data"
    by (simp add: butlast_conv_take min_def)
  finally show ?case by (simp add: unfold)
qed

lemma saveHistoryWithRetry_continues:
  "Suc k < length (saveHistoryWithRetry setItem data) \<longleftrightarrow>
     k < length (saveHistoryWithRetry setItem data)
     \<and> (\<exists>e. setItem (saveHistoryWithRetry setItem data ! k) = Some e \<and> isQuotaError e)
     \<and> saveHistoryWithRetry setItem data ! k \<noteq> []"
proof (induction k arbitrary: data)
  case 0
  show ?case
  proof (cases "(\<exists>e. setItem data = Some e \<and> isQuotaError e) \<and> data \<noteq> []")
    case True
    then have unfold: "saveHistoryWithRetry setItem data
                         = data # saveHistoryWithRetry setItem (butlast data)"
      by (rule saveHistoryWithRetry_retry)
    from True show ?thesis unfolding unfold
      by (simp add: saveHistoryWithRetry_nonempty)
  next
    case False
    then have stop: "saveHistoryWithRetry setItem data = [data]"
      by (rule saveHistoryWithRetry_stop)
    from False show ?thesis unfolding stop by auto
  qed
next
  case (Suc k)
  show ?case
  proof (cases "(\<exists>e. setItem data = Some e \<and> isQuotaError e) \<and> data \<noteq> []")
    case True
    then have unfold: "saveHistoryWithRetry setItem data
                         = data # saveHistoryWithRetry setItem (butlast data)"
      by (rule saveHistoryWithRetry_retry)
    show ?thesis unfolding unfold using Suc.IH [of "butlast data"] by simp
  next
    case False
    then have stop: "saveHistoryWithRetry setItem data = [data]"
      by (rule saveHistoryWithRetry_stop)
    from False show ?thesis unfolding stop by auto
  qed
qed

text \<open>
  Claim C9. The payloads that \<open>saveHistoryWithRetry\<close> tries are the history and then, one
  after the other, the history without its last (oldest) 1, 2, ... entries: each retry
  follows a quota error on a non-empty payload and drops exactly the last entry of the
  payload before; such an error is always retried; after a success or any other error
  nothing more is tried; and there are at most as many retries as the history has entries.
\<close>

theorem saveHistoryWithRetry_evicts_oldest:
  "saveHistoryWithRetry setItem data \<noteq> []
   \<and> saveHistoryWithRetry setItem data ! 0 = data
   \<and> length (saveHistoryWithRetry setItem data) - 1 \<le> length data
   \<and> (k1 < length (saveHistoryWithRetry setItem data) \<longrightarrow>
        saveHistoryWithRetry setItem data ! k1 = take (length data - k1) data)
   \<and> (Suc k2 < length (saveHistoryWithRetry setItem data) \<longrightarrow>
        (\<exists>e. setItem (saveHistoryWithRetry setItem data ! k2) = Some e \<and> isQuotaError e)
        \<and> saveHistoryWithRetry setItem data ! k2 \<noteq> []
        \<and> saveHistoryWithRetry setItem data ! Suc k2
            = butlast (saveHistoryWithRetry setItem data ! k2))
   \<and> (k3 < length (saveHistoryWithRetry setItem data)
        \<and> (\<exists>e. setItem (saveHistoryWithRetry setItem data ! k3) = Some e \<and> isQuotaError e)
        \<and> saveHistoryWithRetry setItem data ! k3 \<noteq> []
        \<longrightarrow> Suc k3 < length (saveHistoryWithRetry setItem data))
   \<and> (k4 < length (saveHistoryWithRetry setItem data)
        \<and> (\<forall>e. setItem (saveHistoryWithRetry setItem data ! k4) = Some e \<longrightarrow> \<not> isQuotaError e)
        \<longrightarrow> length (saveHistoryWithRetry setItem data) = Suc k4)"
proof -
  let ?tr = "saveHistoryWithRetry setItem data"
  have a: "?tr \<noteq> []" by (rule saveHistoryWithRetry_nonempty)
  have b: "?tr ! 0 = data" by (rule saveHistoryWithRetry_hd)
  have c: "length ?tr - 1 \<le> length data"
    using saveHistoryWithRetry_length [of setItem data] by simp
  have d: "k1 < length ?tr \<longrightarrow> ?tr ! k1 = take (length data - k1) data"
    by (simp add: saveHistoryWithRetry_nth)
  have e1: "Suc k2 < length ?tr \<longrightarrow>
        (\<exists>e. setItem (?tr ! k2) = Some e \<and> isQuotaError e) \<and> ?tr ! k2 \<noteq> []"
    using saveHistoryWithRetry_continues [of k2 setItem data] by blast
  have e2: "Suc k2 < length ?tr \<longrightarrow> ?tr ! Suc k2 = butlast (?tr ! k2)"
  proof
    assume l: "Suc k2 < length ?tr"
    then have "?tr ! Suc k2 = take (length data - Suc k2) data"
      and "?tr ! k2 = take (length data - k2) data"
      by (simp_all add: saveHistoryWithRetry_nth)
    then show "?tr ! Suc k2 = butlast (?tr ! k2)"
      by (simp add: butlast_take)
  qed
  have f: "k3 < length ?tr
        \<and> (\<exists>e. setItem (?tr ! k3) = Some e \<and> isQuotaError e) \<and> ?tr ! k3 \<noteq> []
        \<longrightarrow> Suc k3 < length ?tr"
    using saveHistoryWithRetry_continues [of k3 setItem data] by blast
  have g: "k4 < length ?tr \<and> (\<forall>e. setItem (?tr ! k4) = Some e \<longrightarrow> \<not> isQuotaError e)
        \<longrightarrow> length ?tr = Suc k4"
    using saveHistoryWithRetry_continues [of k4 setItem data] by (metis Suc_lessI)
  from a b c d e1 e2 f g show ?thesis by blast
qed

lemma saveHistoryWithRetry_example:
  "saveHistoryWithRetry (roomFor 2) [40, 30, 20, 10 :: nat] = [[40, 30, 20, 10], [40, 30, 20], [40, 30]]"
  by (simp add: saveHistoryWithRetry.simps roomFor_def isQuotaError_def)

theorem saveHistoryWithRetry_evicts_oldest_witness:
  "saveHistoryWithRetry (roomFor 2) [40, 30, 20, 10 :: nat] ! 2 = [40, 30]
   \<and> saveHistoryWithRetry (roomFor 2) [40, 30, 20, 10 :: nat] ! Suc 1
       = butlast (saveHistoryWithRetry (roomFor 2) [40, 30, 20, 10 :: nat] ! 1)
   \<and> Suc 0 < length (saveHistoryWithRetry (roomFor 2) [40, 30, 20, 10 :: nat])
   \<and> length (saveHistoryWithRetry (roomFor 2) [40, 30, 20, 10 :: nat]) = Suc 2"
  using saveHistoryWithRetry_evicts_oldest [of "roomFor 2" "[40, 30, 20, 10 :: nat]" 2 1 0 2]
  unfolding saveHistoryWithRetry_example
  by (simp add: roomFor_def isQuotaError_def)

section \<open>Audio scheduling\<close>

lemma onmessage_audio:
  "onmessage st (t, Some d) =
     \<lparr>nextStartTime = max (nextStartTime st) t + d,
      scheduled = scheduled st @ [(max (nextStartTime st) t, d)]\<rparr>"
  by (simp add: onmessage_def Let_def)

lemma cursorAfter_Nil: "cursorAfter [] = 0"
  by (simp add: cursorAfter_def sessionStart_def)

lemma cursorAfter_snoc: "cursorAfter (bs @ [b]) = max (cursorAfter bs) (fst b) + snd b"
  by (cases b) (simp add: cursorAfter_def onmessage_audio)

lemma scheduleAll_Nil: "scheduleAll [] = []"
  by (simp add: scheduleAll_def sessionStart_def)

lemma scheduleAll_snoc:
  "scheduleAll (bs @ [b]) = scheduleAll bs @ [(max (cursorAfter bs) (fst b), snd b)]"
  by (cases b) (simp add: scheduleAll_def cursorAfter_def onmessage_audio)

lemma length_scheduleAll: "length (scheduleAll bs) = length bs"
proof (induction bs rule: rev_induct)
  case Nil
  show ?case by (simp add: scheduleAll_Nil)
next
  case (snoc b bs)
  then show ?case by (simp add: scheduleAll_snoc)
qed

lemma scheduleAll_take: "scheduleAll (take n bs) = take n (scheduleAll bs)"
proof (induction bs rule: rev_induct)
  case Nil
  show ?case by (simp add: scheduleAll_Nil)
next
  case (snoc b bs)
  show ?case
  proof (cases "n \<le> length bs")
    case True
    with snoc show ?thesis by (simp add: scheduleAll_snoc length_scheduleAll)
  next
    case False
    then show ?thesis by (simp add: scheduleAll_snoc length_scheduleAll)
  qed
qed

lemma scheduleAll_nth:
  assumes "k < length bs"
  shows "scheduleAll bs ! k = (max (cursorAfter (take k bs)) (fst (bs ! k)), snd (bs ! k))"
proof -
  have "scheduleAll bs ! k = take (Suc k) (scheduleAll bs) ! k" by simp
  also have "\<dots> = scheduleAll (take (Suc k) bs) ! k" by (simp add: scheduleAll_take)
  also have "take (Suc k) bs = take k bs @ [bs ! k]"
    using assms by (simp add: take_Suc_conv_app_nth)
  also have "scheduleAll \<dots> ! k = (max (cursorAfter (take k bs)) (fst (bs ! k)), snd (bs ! k))"
    using assms by (simp add: scheduleAll_snoc nth_append length_scheduleAll)
  finally show ?thesis .
qed

lemma cursorAfter_take_Suc:
  assumes "k < length bs"
  shows "cursorAfter (take (Suc k) bs) = fst (scheduleAll bs ! k) + snd (bs ! k)"
proof -
  have "take (Suc k) bs = take k bs @ [bs ! k]"
    using assms by (simp add: take_Suc_conv_app_nth)
  then show ?thesis
    using assms by (simp add: cursorAfter_snoc scheduleAll_nth)
qed

lemma scheduleAll_first:
  "0 < length bs \<Longrightarrow> fst (scheduleAll bs ! 0) = max 0 (fst (bs ! 0))"
  by (simp add: scheduleAll_nth cursorAfter_Nil)

lemma scheduleAll_next:
  assumes "Suc k < length bs"
  shows "fst (scheduleAll bs ! Suc k)
           = max (fst (scheduleAll bs ! k) + snd (bs ! k)) (fst (bs ! Suc k))"
  using assms by (simp add: scheduleAll_nth [of "Suc k"] cursorAfter_take_Suc)

lemma scheduleAll_back_to_back:
  assumes "\<forall>i. Suc i < length bs \<longrightarrow> fst (bs ! Suc i) \<le> fst (scheduleAll bs ! i) + snd (bs ! i)"
    and "k < length bs"
  shows "fst (scheduleAll bs ! k) = fst (scheduleAll bs ! 0) + sum_list (map snd (take k bs))"
  using assms(2)
proof (induction k)
  case 0
  show ?case by simp
next
  case (Suc k)
  then have IH: "fst (scheduleAll bs ! k) = fst (scheduleAll bs ! 0) + sum_list (map snd (take k bs))"
    by simp
  have "fst (scheduleAll bs ! Suc k) = fst (scheduleAll bs ! k) + snd (bs ! k)"
    using Suc.prems assms(1) by (auto simp: scheduleAll_next)
  also have "\<dots> = fst (scheduleAll bs ! 0) + sum_list (map snd (take (Suc k) bs))"
    using Suc.prems by (simp add: IH take_Suc_conv_app_nth)
  finally show ?case .
qed

lemma scheduleAll_duration: "k < length bs \<Longrightarrow> snd (scheduleAll bs ! k) = snd (bs ! k)"
  by (simp add: scheduleAll_nth)

lemma scheduleAll_no_overlap_next:
  "Suc k < length bs
   \<Longrightarrow> fst (scheduleAll bs ! k) + snd (scheduleAll bs ! k) \<le> fst (scheduleAll bs ! Suc k)"
  by (simp add: scheduleAll_next scheduleAll_duration)

lemma scheduleAll_no_overlap:
  assumes "\<forall>b\<in>set bs. 0 \<le> snd b" and "i < j" and "j < length bs"
  shows "fst (scheduleAll bs ! i) + snd (scheduleAll bs ! i) \<le> fst (scheduleAll bs ! j)"
  using assms(2,3)
proof (induction j)
  case 0
  then show ?case by simp
next
  case (Suc j)
  have step: "fst (scheduleAll bs ! j) + snd (scheduleAll bs ! j) \<le> fst (scheduleAll bs ! Suc j)"
    using Suc.prems by (simp add: scheduleAll_no_overlap_next)
  show ?case
  proof (cases "i = j")
    case True
    with step show ?thesis by simp
  next
    case False
    with Suc.prems have "i < j" and "j < length bs" by simp_all
    then have before: "fst (scheduleAll bs ! i) + snd (scheduleAll bs ! i) \<le> fst (scheduleAll bs ! j)"
      by (rule Suc.IH)
    have "0 \<le> snd (bs ! j)"
      using assms(1) \<open>j < length bs\<close> by simp
    then have "0 \<le> snd (scheduleAll bs ! j)"
      using \<open>j < length bs\<close> by (simp add: scheduleAll_duration)
    with before step show ?thesis by linarith
  qed
qed

lemma arrivesInTime_iff:
  "arrivesInTime bs \<longleftrightarrow>
     (\<forall>i. Suc i < length bs \<longrightarrow> fst (bs ! Suc i) \<le> fst (scheduleAll bs ! i) + snd (bs ! i))"
proof -
  have "\<And>i. Suc i < length bs \<Longrightarrow> snd (scheduleAll bs ! i) = snd (bs ! i)"
    by (simp add: scheduleAll_duration)
  then show ?thesis
    by (auto simp: arrivesInTime_def list_all_iff less_diff_conv)
qed

lemma scheduleAll_late_example: "scheduleAll [(1 / 4, 1), (5, 1)] = [(1 / 4, 1), (5, 1)]"
  by (simp add: scheduleAll_def sessionStart_def onmessage_def)

lemma scheduleAll_in_time_example:
  "scheduleAll [(1 / 2, 1), (1, 2), (7 / 2, 1)] = [(1 / 2, 1), (3 / 2, 2), (7 / 2, 1)]"
  by (simp add: scheduleAll_def sessionStart_def onmessage_def)

text \<open>
  Claim C4, as stated, fails: the start time of a buffer is not always the cumulative sum of
  the durations before it. Two buffers of one second each, the first handled at clock 1/4
  and the second at clock 5: the first starts at 1/4 and the second at 5, not at 1/4 + 1.
\<close>

theorem scheduled_start_cumulative_counterexample:
  "scheduleAll [(1 / 4, 1), (5, 1)] = [(1 / 4, 1), (5, 1)]
   \<and> fst (scheduleAll [(1 / 4, 1), (5, 1)] ! 1)
       \<noteq> fst (scheduleAll [(1 / 4, 1), (5, 1)] ! 0)
         + sum_list (map snd (take 1 [(1 / 4 :: real, 1 :: real), (5, 1)]))"
  unfolding scheduleAll_late_example by simp

text \<open>
  Claim C4, amended. For buffers given by the clock reading at which each is handled and its
  duration: the first buffer starts at that reading (the cursor is 0 at session start, the
  clock is not negative), every later buffer starts at the end of the buffer before it or at
  its own clock reading, whichever is later; so a buffer never starts before the one before
  it has ended, and with non-negative durations no two scheduled buffers overlap; and when
  every buffer arrives in time, the start of buffer \<open>k\<close> is the start of the first buffer
  plus the sum of the durations before \<open>k\<close>, without a gap.
\<close>

theorem scheduled_start_cursor_or_clock:
  "length (scheduleAll bs) = length bs
   \<and> (k0 < length bs \<longrightarrow> snd (scheduleAll bs ! k0) = snd (bs ! k0))
   \<and> (0 < length bs \<longrightarrow> fst (scheduleAll bs ! 0) = max 0 (fst (bs ! 0)))
   \<and> (Suc k1 < length bs \<longrightarrow>
        fst (scheduleAll bs ! Suc k1)
          = max (fst (scheduleAll bs ! k1) + snd (bs ! k1)) (fst (bs ! Suc k1)))
   \<and> ((\<forall>b\<in>set bs. 0 \<le> snd b) \<and> i < j \<and> j < length bs \<longrightarrow>
        fst (scheduleAll bs ! i) + snd (scheduleAll bs ! i) \<le> fst (scheduleAll bs ! j))
   \<and> (arrivesInTime bs \<and> k2 < length bs \<longrightarrow>
        fst (scheduleAll bs ! k2)
          = fst (scheduleAll bs ! 0) + sum_list (map snd (take k2 bs)))"
proof (intro conjI impI)
  show "length (scheduleAll bs) = length bs"
    by (rule length_scheduleAll)
next
  assume "k0 < length bs"
  then show "snd (scheduleAll bs ! k0) = snd (bs ! k0)"
    by (rule scheduleAll_duration)
next
  assume "0 < length bs"
  then show "fst (scheduleAll bs ! 0) = max 0 (fst (bs ! 0))"
    by (rule scheduleAll_first)
next
  assume "Suc k1 < length bs"
  then show "fst (scheduleAll bs ! Suc k1)
               = max (fst (scheduleAll bs ! k1) + snd (bs ! k1)) (fst (bs ! Suc k1))"
    by (rule scheduleAll_next)
next
  assume "(\<forall>b\<in>set bs. 0 \<le> snd b) \<and> i < j \<and> j < length bs"
  then show "fst (scheduleAll bs ! i) + snd (scheduleAll bs ! i) \<le> fst (scheduleAll bs ! j)"
    using scheduleAll_no_overlap [of bs i j] by blast
next
  assume "arrivesInTime bs \<and> k2 < length bs"
  then show "fst (scheduleAll bs ! k2)
               = fst (scheduleAll bs ! 0) + sum_list (map snd (take k2 bs))"
    using scheduleAll_back_to_back [of bs k2] by (simp add: arrivesInTime_iff)
qed

theorem scheduled_start_cursor_or_clock_witness:
  "arrivesInTime [(1 / 2, 1), (1, 2), (7 / 2, 1)]
   \<and> fst (scheduleAll [(1 / 2, 1), (1, 2), (7 / 2, 1)] ! 2) = 1 / 2 + (1 + 2)
   \<and> fst (scheduleAll [(1 / 2, 1), (1, 2), (7 / 2, 1)] ! Suc 1) = max (3 / 2 + 2) (7 / 2)
   \<and> fst (scheduleAll [(1 / 2, 1), (1, 2), (7 / 2, 1)] ! 0) + 1
       \<le> fst (scheduleAll [(1 / 2, 1), (1, 2), (7 / 2, 1)] ! 2)"
proof -
  have inTime: "arrivesInTime [(1 / 2, 1), (1, 2), (7 / 2, 1)]"
    unfolding arrivesInTime_def scheduleAll_in_time_example
    by (simp add: upt_rec)
  show ?thesis
    using inTime scheduled_start_cursor_or_clock
      [of "[(1 / 2, 1), (1, 2), (7 / 2, 1)]" 0 1 0 2 2]
    unfolding scheduleAll_in_time_example
    by (simp add: numeral_2_eq_2)
qed

section \<open>The streaming chat exchange\<close>

lemma find_updateSession:
  assumes "\<And>s. session_id (f s) = session_id s"
  shows "find (\<lambda>s. session_id s = sid) (updateSession sid f ss)
           = map_option f (find (\<lambda>s. session_id s = sid) ss)"
  by (induction ss) (simp_all add: updateSession_def assms)

lemma messagesOf_updateSession:
  assumes "\<And>s. session_id (f s) = session_id s"
  shows "messagesOf sid (updateSession sid f ss)
           = (case find (\<lambda>s. session_id s = sid) ss of None \<Rightarrow> [] | Some s \<Rightarrow> messages (f s))"
  by (simp add: messagesOf_def find_updateSession assms split: option.split)

lemma sessionMessages_messagesOf: "sessionMessages st = messagesOf (currentSessionId st) (sessions st)"
  by (simp add: sessionMessages_def messagesOf_def)

lemma messagesOf_nonempty:
  assumes "messagesOf sid ss \<noteq> []"
  obtains s where "find (\<lambda>s. session_id s = sid) ss = Some s" and "messages s = messagesOf sid ss"
  using assms by (auto simp: messagesOf_def split: option.splits)

lemma session_id_revealContent: "session_id (revealContent c s) = session_id s"
  by (simp add: revealContent_def Let_def)

lemma session_id_finalizeMessage: "session_id (finalizeMessage srcs s) = session_id s"
  by (simp add: finalizeMessage_def Let_def)

lemma messages_revealContent:
  assumes "messages s \<noteq> []" and "role (last (messages s)) = RoleModel"
    and "isStreaming (last (messages s)) = Some True"
  shows "messages (revealContent c s) = butlast (messages s) @ [(last (messages s))\<lparr>content := c\<rparr>]"
proof -
  obtain base m where split: "messages s = base @ [m]"
    using assms(1) by (metis append_butlast_last_id)
  with assms(2,3) show ?thesis
    by (simp add: revealContent_def Let_def truthy_def)
qed

lemma messages_finalizeMessage:
  assumes "messages s \<noteq> []"
  shows "messages (finalizeMessage srcs s)
           = butlast (messages s) @ [(last (messages s))\<lparr>isStreaming := Some False, sources := srcs\<rparr>]"
proof -
  obtain base m where split: "messages s = base @ [m]"
    using assms(1) by (metis append_butlast_last_id)
  then show ?thesis
    by (simp add: finalizeMessage_def Let_def)
qed

lemma rendered_last: "sessionMessages st \<noteq> [] \<Longrightarrow> rendered st = content (last (sessionMessages st))"
  by (cases "sessionMessages st") (simp_all add: rendered_def)

lemma exchangeInv_rendered: "exchangeInv base st \<Longrightarrow> rendered st = displayedText st"
  by (simp add: exchangeInv_def rendered_last)

lemma nextContentOf_prefix: "prefix (nextContentOf st) (streamText st)"
  by (simp add: nextContentOf_def Let_def take_is_prefix)

lemma nextContentOf_grows:
  assumes "prefix (displayedText st) (streamText st)"
    and "length (displayedText st) < length (streamText st)"
  shows "prefix (displayedText st) (nextContentOf st)"
    and "length (displayedText st) < length (nextContentOf st)"
proof -
  let ?c = "nat (max 1 (Math_round (fl (real (length (streamText st) - length (displayedText st)) / (3 / 2)))))"
  have c: "1 \<le> ?c" by simp
  from assms(1) obtain zs where zs: "streamText st = displayedText st @ zs"
    by (auto simp: prefix_def)
  show "prefix (displayedText st) (nextContentOf st)"
    unfolding nextContentOf_def Let_def by (simp add: zs)
  show "length (displayedText st) < length (nextContentOf st)"
    unfolding nextContentOf_def Let_def using assms(2) c by simp
qed


lemma nextContentOf_framePending [simp]:
  "nextContentOf (st\<lparr>framePending := b\<rparr>) = nextContentOf st"
  by (simp add: nextContentOf_def)

lemma framePending_same: "framePending st \<Longrightarrow> st\<lparr>framePending := True\<rparr> = st"
  by (cases st) simp

lemma animateStream_unfold:
  "animateStream st =
     (let st1 = (if length (displayedText st) < length (streamText st)
                 then st\<lparr>displayedText := nextContentOf st,
                         sessions := updateSession (currentSessionId st)
                                       (revealContent (nextContentOf st)) (sessions st)\<rparr>
                 else st)
      in if \<not> isComplete st \<or> length (displayedText st1) < length (streamText st)
         then st1\<lparr>framePending := True\<rparr>
         else st1\<lparr>sessions := updateSession (currentSessionId st)
                                 (finalizeMessage (finalSources st)) (sessions st1),
                  isLoading := False\<rparr>)"
  by (auto simp: animateStream_def Let_def)

lemma messagesOf_updated:
  assumes "messagesOf sid ss \<noteq> []" and "\<And>s. session_id (f s) = session_id s"
  obtains s where "messages s = messagesOf sid ss"
    and "messagesOf sid (updateSession sid f ss) = messages (f s)"
proof -
  from assms(1) obtain s
    where s: "find (\<lambda>s. session_id s = sid) ss = Some s"
      and m: "messages s = messagesOf sid ss"
    by (rule messagesOf_nonempty)
  have "messagesOf sid (updateSession sid f ss) = messages (f s)"
    by (simp add: messagesOf_updateSession assms(2) s)
  with m show thesis by (rule that)
qed

lemma reveal_messages:
  assumes "messagesOf sid ss \<noteq> []" and "role (last (messagesOf sid ss)) = RoleModel"
    and "isStreaming (last (messagesOf sid ss)) = Some True"
  shows "messagesOf sid (updateSession sid (revealContent c) ss)
         = butlast (messagesOf sid ss) @ [(last (messagesOf sid ss))\<lparr>content := c\<rparr>]"
proof -
  obtain s where s: "messages s = messagesOf sid ss"
    and u: "messagesOf sid (updateSession sid (revealContent c) ss) = messages (revealContent c s)"
    using assms(1) session_id_revealContent by (rule messagesOf_updated)
  show ?thesis
    unfolding u using assms by (simp add: messages_revealContent s)
qed

lemma finalize_messages:
  assumes "messagesOf sid ss \<noteq> []"
  shows "messagesOf sid (updateSession sid (finalizeMessage srcs) ss)
         = butlast (messagesOf sid ss)
           @ [(last (messagesOf sid ss))\<lparr>isStreaming := Some False, sources := srcs\<rparr>]"
proof -
  obtain s where s: "messages s = messagesOf sid ss"
    and u: "messagesOf sid (updateSession sid (finalizeMessage srcs) ss)
            = messages (finalizeMessage srcs s)"
    using assms(1) session_id_finalizeMessage by (rule messagesOf_updated)
  show ?thesis
    unfolding u using assms by (simp add: messages_finalizeMessage s)
qed

lemma rename_messages:
  "messagesOf sid (updateSession sid (\<lambda>s. s\<lparr>session_name := title\<rparr>) ss) = messagesOf sid ss"
  by (simp add: messagesOf_updateSession) (simp add: messagesOf_def split: option.split)

lemma filter_messages:
  "messagesOf sid (updateSession sid (\<lambda>s. s\<lparr>messages := filter P (messages s)\<rparr>) ss)
     = filter P (messagesOf sid ss)"
  by (simp add: messagesOf_updateSession) (simp add: messagesOf_def split: option.split)

lemma append_messages:
  "find (\<lambda>s. session_id s = sid) ss \<noteq> None
   \<Longrightarrow> messagesOf sid (updateSession sid (\<lambda>s. s\<lparr>messages := messages s @ ms\<rparr>) ss)
       = messagesOf sid ss @ ms"
  by (simp add: messagesOf_updateSession) (auto simp: messagesOf_def split: option.split)

lemma find_append_messages:
  "find (\<lambda>s. session_id s = sid) (updateSession sid (\<lambda>s. s\<lparr>messages := messages s @ ms\<rparr>) ss) = None
   \<longleftrightarrow> find (\<lambda>s. session_id s = sid) ss = None"
  by (simp add: find_updateSession)


lemma exchangeInv_chunk:
  assumes "exchangeInv base st" and "framePending st"
  shows "exchangeInv base (step st (OnChunk c))"
    and "rendered (step st (OnChunk c)) = rendered st"
    and "framePending (step st (OnChunk c))"
    and "isComplete (step st (OnChunk c)) = isComplete st"
  using assms
  by (simp_all add: step.simps exchangeInv_def sessionMessages_def rendered_def)

lemma exchangeInv_title:
  assumes "exchangeInv base st"
  shows "exchangeInv base (step st (TitleGenerated t))"
    and "rendered (step st (TitleGenerated t)) = rendered st"
    and "framePending (step st (TitleGenerated t)) = framePending st"
    and "isComplete (step st (TitleGenerated t)) = isComplete st"
    and "displayedText (step st (TitleGenerated t)) = displayedText st"
proof -
  have m: "sessionMessages (step st (TitleGenerated t)) = sessionMessages st"
    by (simp add: step.simps sessionMessages_messagesOf rename_messages)
  with assms show "exchangeInv base (step st (TitleGenerated t))"
    by (simp add: step.simps exchangeInv_def)
  from m show "rendered (step st (TitleGenerated t)) = rendered st"
    by (simp add: rendered_def)
qed (simp_all add: step.simps)

lemma exchangeInv_resolved:
  assumes "exchangeInv base st" and "framePending st"
  shows "exchangeInv base (step st (Resolved srcs))"
    and "rendered (step st (Resolved srcs)) = rendered st"
    and "isComplete (step st (Resolved srcs))"
  using assms
  by (simp_all add: step.simps exchangeInv_def sessionMessages_def rendered_def)

lemma prefix_same_length: "prefix xs ys \<Longrightarrow> \<not> length xs < length ys \<Longrightarrow> xs = ys"
  by (auto simp: prefix_def)

lemma exchangeInv_frame:
  assumes inv: "exchangeInv base st"
  shows "exchangeInv base (step st AnimationFrame)"
    and "prefix (rendered st) (rendered (step st AnimationFrame))"
    and "isComplete (step st AnimationFrame) = isComplete st"
    and "streamText (step st AnimationFrame) = streamText st"
    and "framePending (step st AnimationFrame) \<Longrightarrow> framePending st"
    and "isComplete st \<Longrightarrow> framePending (step st AnimationFrame)
         \<Longrightarrow> length (displayedText st) < length (displayedText (step st AnimationFrame))"
proof -
  let ?sid = "currentSessionId st" and ?nc = "nextContentOf st"
  let ?st' = "step st AnimationFrame"
  have all: "exchangeInv base ?st' \<and> prefix (displayedText st) (displayedText ?st')
      \<and> isComplete ?st' = isComplete st \<and> streamText ?st' = streamText st
      \<and> (framePending ?st' \<longrightarrow> framePending st)
      \<and> (isComplete st \<and> framePending ?st'
            \<longrightarrow> length (displayedText st) < length (displayedText ?st'))"
  proof (cases "framePending st")
    case False
    with inv show ?thesis by (simp add: step.simps)
  next
    case pend: True
    from inv pend have ne: "messagesOf ?sid (sessions st) \<noteq> []"
      and base: "butlast (messagesOf ?sid (sessions st)) = base"
      and rl: "role (last (messagesOf ?sid (sessions st))) = RoleModel"
      and ct: "content (last (messagesOf ?sid (sessions st))) = displayedText st"
      and pf: "prefix (displayedText st) (streamText st)"
      and strm: "isStreaming (last (messagesOf ?sid (sessions st))) = Some True"
      by (simp_all add: exchangeInv_def sessionMessages_messagesOf)
    show ?thesis
    proof (cases "length (displayedText st) < length (streamText st)")
      case behind: True
      have rev: "messagesOf ?sid (updateSession ?sid (revealContent ?nc) (sessions st))
                   = base @ [(last (messagesOf ?sid (sessions st)))\<lparr>content := ?nc\<rparr>]"
        using ne rl strm by (simp add: reveal_messages base)
      have grow: "prefix (displayedText st) ?nc" "length (displayedText st) < length ?nc"
        using pf behind by (rule nextContentOf_grows)+
      have ncp: "prefix ?nc (streamText st)" by (rule nextContentOf_prefix)
      show ?thesis
      proof (cases "\<not> isComplete st \<or> length ?nc < length (streamText st)")
        case more: True
        then have st': "?st' = st\<lparr>displayedText := ?nc,
              sessions := updateSession ?sid (revealContent ?nc) (sessions st),
              framePending := True\<rparr>"
          using pend behind by (auto simp: step.simps animateStream_unfold Let_def)
        show ?thesis
          unfolding st' using rev rl strm grow ncp pend
          by (simp add: exchangeInv_def sessionMessages_messagesOf)
      next
        case fin: False
        then have st': "?st' = st\<lparr>displayedText := ?nc,
              sessions := updateSession ?sid (finalizeMessage (finalSources st))
                            (updateSession ?sid (revealContent ?nc) (sessions st)),
              isLoading := False, framePending := False\<rparr>"
          using pend behind by (auto simp: step.simps animateStream_unfold Let_def)
        have eq: "?nc = streamText st"
          using ncp fin by (simp add: prefix_same_length)
        have "messagesOf ?sid (updateSession ?sid (finalizeMessage (finalSources st))
                (updateSession ?sid (revealContent ?nc) (sessions st)))
              = base @ [(last (messagesOf ?sid (sessions st)))
                          \<lparr>content := ?nc, isStreaming := Some False, sources := finalSources st\<rparr>]"
          by (subst finalize_messages) (simp_all add: rev)
        then show ?thesis
          unfolding st' using rl grow fin eq
          by (simp add: exchangeInv_def sessionMessages_messagesOf)
      qed
    next
      case caught_up: False
      with pf have eq: "displayedText st = streamText st"
        by (rule prefix_same_length)
      show ?thesis
      proof (cases "isComplete st")
        case False
        then have "?st' = st"
          using pend caught_up by (simp add: step.simps animateStream_unfold Let_def framePending_same)
        with inv pend False show ?thesis by simp
      next
        case complete: True
        then have st': "?st' = st\<lparr>sessions := updateSession ?sid (finalizeMessage (finalSources st))
                                                (sessions st),
              isLoading := False, framePending := False\<rparr>"
          using pend caught_up by (simp add: step.simps animateStream_unfold Let_def)
        have "messagesOf ?sid (updateSession ?sid (finalizeMessage (finalSources st)) (sessions st))
              = base @ [(last (messagesOf ?sid (sessions st)))
                          \<lparr>isStreaming := Some False, sources := finalSources st\<rparr>]"
          using ne by (simp add: finalize_messages base)
        then show ?thesis
          unfolding st' using rl ct complete eq
          by (simp add: exchangeInv_def sessionMessages_messagesOf)
      qed
    qed
  qed
  from all show inv': "exchangeInv base ?st'" by blast
  from all have p: "prefix (displayedText st) (displayedText ?st')" by blast
  show "prefix (rendered st) (rendered ?st')"
    unfolding exchangeInv_rendered [OF inv] exchangeInv_rendered [OF inv'] by (rule p)
  from all show "isComplete ?st' = isComplete st" by blast
  from all show "streamText ?st' = streamText st" by blast
  from all show "framePending ?st' \<Longrightarrow> framePending st" by blast
  from all show "isComplete st \<Longrightarrow> framePending ?st'
         \<Longrightarrow> length (displayedText st) < length (displayedText ?st')" by blast
qed


lemma run_Nil: "run st [] = st"
  by (simp add: run_def)

lemma run_Cons: "run st (e # evs) = run (step st e) evs"
  by (simp add: run_def)

lemma run_append: "run st (xs @ ys) = run (run st xs) ys"
  by (simp add: run_def)

lemma exchangeInv_pending: "exchangeInv base st \<Longrightarrow> \<not> isComplete st \<Longrightarrow> framePending st"
  by (auto simp: exchangeInv_def split: if_splits)

lemma isComplete_step:
  "isComplete (step st e) =
     (case e of Resolved srcs \<Rightarrow> True | Rejected err \<Rightarrow> True | _ \<Rightarrow> isComplete st)"
  by (cases e) (simp_all add: step.simps animateStream_unfold Let_def)

lemma exchangeInv_step:
  assumes "exchangeInv base st" and "admits (isComplete st) (e # evs)"
  shows "exchangeInv base (step st e)"
    and "prefix (rendered st) (rendered (step st e))"
    and "admits (isComplete (step st e)) evs"
proof -
  have "exchangeInv base (step st e) \<and> prefix (rendered st) (rendered (step st e))
          \<and> admits (isComplete (step st e)) evs"
  proof (cases e)
    case (OnChunk c)
    with assms have "framePending st" by (simp add: exchangeInv_pending)
    with assms(1) have "exchangeInv base (step st (OnChunk c))"
      and "rendered (step st (OnChunk c)) = rendered st"
      and "isComplete (step st (OnChunk c)) = isComplete st"
      by (rule exchangeInv_chunk)+
    with assms(2) OnChunk show ?thesis by auto
  next
    case AnimationFrame
    from assms(1) have "exchangeInv base (step st AnimationFrame)"
      and "prefix (rendered st) (rendered (step st AnimationFrame))"
      and "isComplete (step st AnimationFrame) = isComplete st"
      by (rule exchangeInv_frame)+
    with assms(2) AnimationFrame show ?thesis by auto
  next
    case (Resolved srcs)
    with assms have "framePending st" by (simp add: exchangeInv_pending)
    with assms(1) have "exchangeInv base (step st (Resolved srcs))"
      and "rendered (step st (Resolved srcs)) = rendered st"
      and "isComplete (step st (Resolved srcs))"
      by (rule exchangeInv_resolved)+
    with assms(2) Resolved show ?thesis by auto
  next
    case (Rejected err)
    with assms(2) show ?thesis by simp
  next
    case (TitleGenerated t)
    from assms(1) have "exchangeInv base (step st (TitleGenerated t))"
      and "rendered (step st (TitleGenerated t)) = rendered st"
      and "isComplete (step st (TitleGenerated t)) = isComplete st"
      by (rule exchangeInv_title)+
    with assms(2) TitleGenerated show ?thesis by auto
  qed
  then show "exchangeInv base (step st e)"
    and "prefix (rendered st) (rendered (step st e))"
    and "admits (isComplete (step st e)) evs"
    by blast+
qed

lemma exchangeInv_run:
  assumes "exchangeInv base st" and "admits (isComplete st) evs"
  shows "exchangeInv base (run st evs) \<and> prefix (rendered st) (rendered (run st evs))"
  using assms
proof (induction evs arbitrary: st)
  case Nil
  then show ?case by (simp add: run_Nil)
next
  case (Cons e evs)
  from Cons.prems have inv: "exchangeInv base (step st e)"
    and p: "prefix (rendered st) (rendered (step st e))"
    and adm: "admits (isComplete (step st e)) evs"
    by (rule exchangeInv_step)+
  from inv adm have "exchangeInv base (run (step st e) evs)
      \<and> prefix (rendered (step st e)) (rendered (run (step st e) evs))"
    by (rule Cons.IH)
  with p show ?case
    unfolding run_Cons by (blast intro: prefix_order.trans)
qed








lemma admits_beforeSettled: "\<forall>e\<in>set pre. beforeSettled e \<Longrightarrow> admits False pre"
proof (induction pre)
  case Nil
  show ?case by simp
next
  case (Cons e pre)
  then show ?case by (cases e) simp_all
qed


lemma unsettled_run:
  assumes "\<not> isComplete st" and "\<forall>e\<in>set pre. beforeSettled e"
  shows "\<not> isComplete (run st pre)"
  using assms
proof (induction pre arbitrary: st)
  case Nil
  then show ?case by (simp add: run_Nil)
next
  case (Cons e pre)
  have "\<not> isComplete (step st e)"
    using Cons.prems by (cases e) (simp_all add: isComplete_step)
  with Cons show ?case by (simp add: run_Cons)
qed






lemma handleSendMessage_starts:
  assumes "canSend userMessageText userImage sid st0"
  shows "exchangeInv (messagesOf sid (sessions st0) @ [userMessage userMessageText userImage think])
           (handleSendMessage userMessageText userImage think st0)"
    and "\<not> isComplete (handleSendMessage userMessageText userImage think st0)"
    and "framePending (handleSendMessage userMessageText userImage think st0)"
    and "streamText (handleSendMessage userMessageText userImage think st0) = []"
proof -
  let ?um = "userMessage userMessageText userImage think"
  let ?ph = "\<lparr>role = RoleModel, content = [], isStreaming = Some True,
              imageUrl = None, thinkingMode = None, sources = None\<rparr>"
  let ?ss = "updateSession sid (\<lambda>session. session\<lparr>messages := messages session @ [?ph]\<rparr>)
               (updateSession sid (\<lambda>session. session\<lparr>messages := messages session @ [?um]\<rparr>)
                  (sessions st0))"
  from assms have st1: "handleSendMessage userMessageText userImage think st0
      = st0\<lparr>sessions := ?ss, isLoading := True, error := None,
            currentSessionId := sid, streamText := [], displayedText := [],
            isComplete := False, framePending := True, finalSources := None\<rparr>"
    by (auto simp: handleSendMessage_def canSend_def userMessage_def Let_def)
  from assms have found: "find (\<lambda>s. session_id s = sid) (sessions st0) \<noteq> None"
    by (simp add: canSend_def)
  have msgs: "messagesOf sid ?ss = (messagesOf sid (sessions st0) @ [?um]) @ [?ph]"
    using found by (simp add: append_messages find_append_messages)
  show "exchangeInv (messagesOf sid (sessions st0) @ [?um])
          (handleSendMessage userMessageText userImage think st0)"
    unfolding st1 exchangeInv_def sessionMessages_messagesOf
    by (simp add: msgs butlast_append)
  show "\<not> isComplete (handleSendMessage userMessageText userImage think st0)"
    and "framePending (handleSendMessage userMessageText userImage think st0)"
    and "streamText (handleSendMessage userMessageText userImage think st0) = []"
    unfolding st1 by simp_all
qed

lemma exchangeInv_rejected:
  assumes "exchangeInv base st" and "framePending st"
  shows "sessionMessages (step st (Rejected err))
           = filter (\<lambda>m. \<not> truthy (isStreaming m)) base"
    and "\<not> framePending (step st (Rejected err))"
    and "\<not> isLoading (step st (Rejected err))"
    and "error (step st (Rejected err))
           = Some (case err of ErrorObject msg \<Rightarrow> msg | OtherValue \<Rightarrow> ''Failed to send message.'')"
proof -
  from assms have ne: "sessionMessages st \<noteq> []"
    and last: "isStreaming (last (sessionMessages st)) = Some True"
    and base: "butlast (sessionMessages st) = base"
    by (simp_all add: exchangeInv_def)
  from ne have split: "sessionMessages st = butlast (sessionMessages st) @ [last (sessionMessages st)]"
    by simp
  have "sessionMessages (step st (Rejected err))
          = filter (\<lambda>m. \<not> truthy (isStreaming m)) (sessionMessages st)"
    by (simp add: step.simps sessionMessages_messagesOf filter_messages)
  also have "\<dots> = filter (\<lambda>m. \<not> truthy (isStreaming m)) base"
    by (subst split) (simp add: last truthy_def base)
  finally show "sessionMessages (step st (Rejected err))
                  = filter (\<lambda>m. \<not> truthy (isStreaming m)) base" .
qed (simp_all add: step.simps)

lemma failed_run:
  assumes "\<not> framePending st" and "\<forall>e\<in>set post. afterSettled e"
  shows "sessionMessages (run st post) = sessionMessages st \<and> error (run st post) = error st
         \<and> isLoading (run st post) = isLoading st \<and> \<not> framePending (run st post)"
  using assms
proof (induction post arbitrary: st)
  case Nil
  then show ?case by (simp add: run_Nil)
next
  case (Cons e post)
  from Cons.prems(2) consider "e = AnimationFrame" | t where "e = TitleGenerated t"
    by (cases e) simp_all
  then have "sessionMessages (step st e) = sessionMessages st \<and> error (step st e) = error st
         \<and> isLoading (step st e) = isLoading st \<and> \<not> framePending (step st e)"
  proof cases
    case 1
    with Cons.prems(1) show ?thesis by (simp add: step.simps)
  next
    case 2
    with Cons.prems(1) show ?thesis
      by (simp add: step.simps sessionMessages_messagesOf rename_messages)
  qed
  with Cons show ?case by (simp add: run_Cons)
qed




text \<open>
  Claim C8. When \<open>askTutor\<close> rejects in an exchange that \<open>handleSendMessage\<close> has started,
  after any chunks, frames and title updates, the messages of the session are the ones from
  before the exchange that are not marked streaming followed by the user's message: the
  placeholder with whatever it showed is gone, no message marked streaming is left, and the
  user's message stays. An error message is set, loading is over, and the animation frame
  is cancelled, so that later frames change nothing.
\<close>

theorem failed_exchange_discards_placeholder:
  assumes "canSend userMessageText userImage sid st0"
    and "\<forall>e\<in>set pre. beforeSettled e" and "\<forall>e\<in>set post. afterSettled e"
  shows "sessionMessages (run (handleSendMessage userMessageText userImage think st0)
                            (pre @ Rejected err # post))
           = filter (\<lambda>m. \<not> truthy (isStreaming m)) (messagesOf sid (sessions st0))
             @ [userMessage userMessageText userImage think]
         \<and> list_all (\<lambda>m. \<not> truthy (isStreaming m))
              (sessionMessages (run (handleSendMessage userMessageText userImage think st0)
                                  (pre @ Rejected err # post)))
         \<and> userMessage userMessageText userImage think
              \<in> set (sessionMessages (run (handleSendMessage userMessageText userImage think st0)
                                        (pre @ Rejected err # post)))
         \<and> error (run (handleSendMessage userMessageText userImage think st0)
                     (pre @ Rejected err # post))
             = Some (case err of ErrorObject msg \<Rightarrow> msg
                     | OtherValue \<Rightarrow> ''Failed to send message.'')
         \<and> \<not> framePending (run (handleSendMessage userMessageText userImage think st0)
                              (pre @ Rejected err # post))
         \<and> \<not> isLoading (run (handleSendMessage userMessageText userImage think st0)
                           (pre @ Rejected err # post))"
proof -
  let ?st1 = "handleSendMessage userMessageText userImage think st0"
  let ?evs = "pre @ Rejected err # post"
  let ?um = "userMessage userMessageText userImage think"
  let ?base = "messagesOf sid (sessions st0) @ [?um]"
  let ?P = "\<lambda>m. \<not> truthy (isStreaming m)"
  from assms(1) have inv1: "exchangeInv ?base ?st1" and unsettled: "\<not> isComplete ?st1"
    by (rule handleSendMessage_starts)+
  have adm_pre: "admits (isComplete ?st1) pre"
    using unsettled assms(2) by (simp add: admits_beforeSettled)
  have inv_pre: "exchangeInv ?base (run ?st1 pre)"
    using exchangeInv_run [OF inv1 adm_pre] by blast
  have "\<not> isComplete (run ?st1 pre)"
    using unsettled assms(2) by (rule unsettled_run)
  with inv_pre have pend: "framePending (run ?st1 pre)"
    by (rule exchangeInv_pending)
  let ?mid = "step (run ?st1 pre) (Rejected err)"
  have run_split: "run ?st1 ?evs = run ?mid post"
    by (simp add: run_append run_Cons)
  from inv_pre pend have msgs_mid: "sessionMessages ?mid = filter ?P ?base"
    and stop_mid: "\<not> framePending ?mid"
    and load_mid: "\<not> isLoading ?mid"
    and err_mid: "error ?mid = Some (case err of ErrorObject msg \<Rightarrow> msg
                                      | OtherValue \<Rightarrow> ''Failed to send message.'')"
    by (rule exchangeInv_rejected)+
  from stop_mid assms(3)
  have post: "sessionMessages (run ?mid post) = sessionMessages ?mid
      \<and> error (run ?mid post) = error ?mid
      \<and> isLoading (run ?mid post) = isLoading ?mid \<and> \<not> framePending (run ?mid post)"
    by (rule failed_run)
  have um: "?P ?um"
    by (simp add: userMessage_def truthy_def)
  have msgs: "sessionMessages (run ?st1 ?evs) = filter ?P (messagesOf sid (sessions st0)) @ [?um]"
    unfolding run_split using post msgs_mid um by simp
  have "list_all ?P (sessionMessages (run ?st1 ?evs))"
    unfolding msgs using um by (simp add: list_all_iff)
  moreover have "?um \<in> set (sessionMessages (run ?st1 ?evs))"
    unfolding msgs by simp
  moreover have "error (run ?st1 ?evs) = Some (case err of ErrorObject msg \<Rightarrow> msg
                                              | OtherValue \<Rightarrow> ''Failed to send message.'')"
    and "\<not> framePending (run ?st1 ?evs)" and "\<not> isLoading (run ?st1 ?evs)"
    unfolding run_split using post stop_mid load_mid err_mid by simp_all
  ultimately show ?thesis using msgs by blast
qed


theorem failed_exchange_discards_placeholder_witness:
  "canSend ''hi'' None ''17'' (newChat ''17'' 17)
   \<and> sessionMessages (run (handleSendMessage ''hi'' None False (newChat ''17'' 17))
        ([OnChunk ''Hel'', AnimationFrame] @ Rejected (ErrorObject ''offline'') # [AnimationFrame]))
       = [userMessage ''hi'' None False]
   \<and> error (run (handleSendMessage ''hi'' None False (newChat ''17'' 17))
        ([OnChunk ''Hel'', AnimationFrame] @ Rejected (ErrorObject ''offline'') # [AnimationFrame]))
       = Some ''offline''"
proof -
  have can: "canSend ''hi'' None ''17'' (newChat ''17'' 17)"
    by (simp add: canSend_def newChat_def)
  have pre: "\<forall>e\<in>set [OnChunk ''Hel'', AnimationFrame]. beforeSettled e"
    by simp
  have post: "\<forall>e\<in>set [AnimationFrame]. afterSettled e"
    by simp
  have orig: "messagesOf ''17'' (sessions (newChat ''17'' 17)) = []"
    by (simp add: messagesOf_def newChat_def)
  from failed_exchange_discards_placeholder [OF can pre post, of False "ErrorObject ''offline''"] can
  show ?thesis
    unfolding orig by simp
qed

section \<open>Shuffling\<close>

lemma shuffle_loop_0: "shuffle_loop 0 js a = a"
  by (cases js) simp_all

lemma random_index_le:
  assumes "0 \<le> r" and "r < 1"
  shows "random_index r i \<le> i"
proof -
  have "r * real (i + 1) < real (i + 1)"
    using assms by simp
  then have "\<lfloor>r * real (i + 1)\<rfloor> < int (i + 1)"
    by (simp add: floor_less_iff)
  then show ?thesis
    by (simp add: random_index_def)
qed

lemma random_index_interval:
  assumes "0 \<le> r"
  shows "random_index r i = j \<longleftrightarrow> real j / real (i + 1) \<le> r \<and> r < real (j + 1) / real (i + 1)"
proof -
  have nonneg: "0 \<le> r * real (i + 1)"
    using assms by simp
  then have "0 \<le> \<lfloor>r * real (i + 1)\<rfloor>" by simp
  then have "random_index r i = j \<longleftrightarrow> \<lfloor>r * real (i + 1)\<rfloor> = int j"
    unfolding random_index_def by linarith
  also have "\<dots> \<longleftrightarrow> real j \<le> r * real (i + 1) \<and> r * real (i + 1) < real j + 1"
    by (simp add: floor_eq_iff)
  also have "\<dots> \<longleftrightarrow> real j / real (i + 1) \<le> r \<and> r < real (j + 1) / real (i + 1)"
    by (auto simp: field_simps)
  finally show ?thesis .
qed

lemma all_draws_Suc_iff:
  "js \<in> set (all_draws (Suc i)) \<longleftrightarrow> (\<exists>j js'. js = j # js' \<and> j \<le> Suc i \<and> js' \<in> set (all_draws i))"
  by (auto simp del: upt_Suc simp add: less_Suc_eq_le)

lemma length_all_draws: "length (all_draws i) = fact (Suc i)"
proof (induction i)
  case 0
  show ?case by simp
next
  case (Suc i)
  have "length (all_draws (Suc i)) = sum_list (map (\<lambda>j. length (all_draws i)) [0..<Suc (Suc i)])"
    by (simp add: length_concat comp_def del: upt_Suc)
  also have "\<dots> = Suc (Suc i) * fact (Suc i)"
    by (simp add: Suc.IH sum_list_triv del: upt_Suc fact_Suc)
  finally show ?case by (simp del: upt_Suc)
qed

lemma drawn_in_all_draws_aux:
  assumes "\<forall>r\<in>set rs. 0 \<le> r \<and> r < 1" and "length rs = i"
  shows "map2 random_index rs (rev [1..<Suc i]) \<in> set (all_draws i)"
  using assms
proof (induction i arbitrary: rs)
  case 0
  then show ?case by simp
next
  case (Suc i)
  then obtain r rs' where rs: "rs = r # rs'" by (cases rs) auto
  with Suc.prems have "map2 random_index rs' (rev [1..<Suc i]) \<in> set (all_draws i)"
    by (intro Suc.IH) auto
  moreover have "random_index r (Suc i) \<le> Suc i"
    using Suc.prems rs by (simp add: random_index_le)
  ultimately show ?case
    unfolding all_draws_Suc_iff by (simp add: rs)
qed

lemma set_stake_subset: "set (stake n s) \<subseteq> sset s"
  by (induction n arbitrary: s) (auto dest: stl_sset simp: shd_sset)

lemma drawn_indices_in_all_draws:
  assumes "\<forall>r\<in>sset rs. 0 \<le> r \<and> r < 1"
  shows "drawn_indices rs n \<in> set (all_draws (n - 1))"
proof (cases n)
  case 0
  then show ?thesis by (simp add: drawn_indices_def)
next
  case (Suc i)
  have "set (stake i rs) \<subseteq> sset rs"
    by (rule set_stake_subset)
  with assms have "\<forall>r\<in>set (stake i rs). 0 \<le> r \<and> r < 1" by blast
  then have "map2 random_index (stake i rs) (rev [1..<Suc i]) \<in> set (all_draws i)"
    by (rule drawn_in_all_draws_aux) simp
  then show ?thesis
    by (simp add: drawn_indices_def Suc)
qed

lemma shuffle_loop_mset:
  assumes "js \<in> set (all_draws i)" and "i < length a"
  shows "mset (shuffle_loop i js a) = mset a"
  using assms
proof (induction i arbitrary: js a)
  case 0
  show ?case by (simp add: shuffle_loop_0)
next
  case (Suc i)
  from Suc.prems(1) obtain j js' where js: "js = j # js'" and j: "j \<le> Suc i"
    and js': "js' \<in> set (all_draws i)"
    unfolding all_draws_Suc_iff by blast
  let ?a' = "a[Suc i := a ! j, j := a ! Suc i]"
  have "mset (shuffle_loop i js' ?a') = mset ?a'"
    using js' Suc.prems(2) by (intro Suc.IH) simp_all
  also have "\<dots> = mset a"
    using j Suc.prems(2) by (intro mset_swap) simp_all
  finally show ?case by (simp add: js)
qed

lemma shuffle_loop_length: "length (shuffle_loop i js a) = length a"
  by (induction i js a rule: shuffle_loop.induct) simp_all

lemma shuffle_loop_append:
  assumes "js \<in> set (all_draws i)" and "length b = Suc i"
  shows "shuffle_loop i js (b @ c) = shuffle_loop i js b @ c"
  using assms
proof (induction i arbitrary: js b c)
  case 0
  show ?case by (simp add: shuffle_loop_0)
next
  case (Suc i)
  from Suc.prems(1) obtain j js' where js: "js = j # js'" and j: "j \<le> Suc i"
    and js': "js' \<in> set (all_draws i)"
    unfolding all_draws_Suc_iff by blast
  let ?b' = "b[Suc i := b ! j, j := b ! Suc i]"
  have len: "length ?b' = Suc (Suc i)" using Suc.prems(2) by simp
  then have split: "?b' = butlast ?b' @ [last ?b']"
    by (metis append_butlast_last_id length_0_conv nat.distinct(1))
  have lb: "length (butlast ?b') = Suc i" using len by simp
  have swap: "(b @ c)[Suc i := (b @ c) ! j, j := (b @ c) ! Suc i] = ?b' @ c"
    using j Suc.prems(2) by (simp add: nth_append list_update_append)
  have "shuffle_loop (Suc i) js (b @ c) = shuffle_loop i js' (?b' @ c)"
    by (simp add: js swap)
  also have "\<dots> = shuffle_loop i js' (butlast ?b' @ ([last ?b'] @ c))"
    by (subst split) simp
  also have "\<dots> = shuffle_loop i js' (butlast ?b') @ [last ?b'] @ c"
    using js' lb by (rule Suc.IH)
  also have "\<dots> = shuffle_loop i js' (butlast ?b' @ [last ?b']) @ c"
    using Suc.IH [OF js' lb, of "[last ?b']"] by simp
  also have "\<dots> = shuffle_loop (Suc i) js b @ c"
    by (simp add: js flip: split)
  finally show ?case .
qed


lemma swap_join:
  assumes "length a = Suc (Suc i)" and "j \<le> Suc i"
  shows "butlast (a[Suc i := a ! j, j := a ! Suc i]) @ [a ! j] = a[Suc i := a ! j, j := a ! Suc i]"
proof -
  let ?a' = "a[Suc i := a ! j, j := a ! Suc i]"
  have len: "length ?a' = Suc (Suc i)" using assms(1) by simp
  then have ne: "?a' \<noteq> []" by auto
  have "last ?a' = ?a' ! Suc i"
    using len ne by (simp add: last_conv_nth)
  also have "\<dots> = a ! j"
    using assms(1,2) by (cases "j = Suc i") simp_all
  finally have last: "last ?a' = a ! j" .
  from ne have "butlast ?a' @ [last ?a'] = ?a'" by (rule append_butlast_last_id)
  then show ?thesis unfolding last .
qed

lemma shuffle_loop_top:
  assumes "length a = Suc (Suc i)" and "j \<le> Suc i" and "js' \<in> set (all_draws i)"
  shows "shuffle_loop (Suc i) (j # js') a
           = shuffle_loop i js' (butlast (a[Suc i := a ! j, j := a ! Suc i])) @ [a ! j]"
proof -
  let ?a' = "a[Suc i := a ! j, j := a ! Suc i]"
  have len: "length ?a' = Suc (Suc i)" using assms(1) by simp
  have "shuffle_loop (Suc i) (j # js') a = shuffle_loop i js' ?a'" by simp
  also have "\<dots> = shuffle_loop i js' (butlast ?a' @ [a ! j])"
    by (simp only: swap_join [OF assms(1,2)])
  also have "\<dots> = shuffle_loop i js' (butlast ?a') @ [a ! j]"
    using assms(3) len by (intro shuffle_loop_append) simp_all
  finally show ?thesis .
qed

lemma swap_rest:
  assumes "distinct a" and "length a = Suc (Suc i)" and "j \<le> Suc i"
  shows "distinct (butlast (a[Suc i := a ! j, j := a ! Suc i]))"
    and "length (butlast (a[Suc i := a ! j, j := a ! Suc i])) = Suc i"
    and "set (butlast (a[Suc i := a ! j, j := a ! Suc i])) = set a - {a ! j}"
proof -
  let ?a' = "a[Suc i := a ! j, j := a ! Suc i]"
  have len: "length ?a' = Suc (Suc i)" using assms(2) by simp
  have m: "mset ?a' = mset a"
    using assms(2,3) by (intro mset_swap) simp_all
  have join: "butlast ?a' @ [a ! j] = ?a'"
    using assms(2,3) by (rule swap_join)
  have "distinct ?a'"
    using mset_eq_imp_distinct_iff [OF m] assms(1) by blast
  then have d: "distinct (butlast ?a' @ [a ! j])"
    by (simp only: join)
  have "set ?a' = set a"
    using m by (rule mset_eq_setD)
  then have s: "set (butlast ?a' @ [a ! j]) = set a"
    by (simp only: join)
  from d show "distinct (butlast ?a')" by simp
  show "length (butlast ?a') = Suc i" using len by simp
  from d have "a ! j \<notin> set (butlast ?a')" by simp
  moreover from s have "set a = insert (a ! j) (set (butlast ?a'))" by simp
  ultimately show "set (butlast ?a') = set a - {a ! j}" by blast
qed

lemma sum_list_if_distinct:
  "distinct a \<Longrightarrow>
   sum_list (map (\<lambda>y. if y = x then A else (B::nat)) a)
     = (if x \<in> set a then A + (length a - 1) * B else length a * B)"
proof (induction a)
  case Nil
  show ?case by simp
next
  case (Cons y ys)
  show ?case
  proof (cases "y = x")
    case True
    with Cons show ?thesis by simp
  next
    case False
    show ?thesis
    proof (cases "x \<in> set ys")
      case True
      then have "0 < length ys" by (cases ys) auto
      then obtain n where n: "length ys = Suc n" by (cases "length ys") simp_all
      with Cons False True show ?thesis by simp
    next
      case notin: False
      with Cons False show ?thesis by simp
    qed
  qed
qed

lemma sum_list_over_indices:
  "sum_list (map (\<lambda>j. g (a ! j)) [0..<length a]) = sum_list (map g a)"
proof -
  have "map (\<lambda>j. g (a ! j)) [0..<length a] = map g (map ((!) a) [0..<length a])"
    by simp
  then show ?thesis by (simp only: map_nth)
qed

lemma count_all_draws_Suc:
  "length (filter P (all_draws (Suc i)))
     = sum_list (map (\<lambda>j. length (filter (\<lambda>js'. P (j # js')) (all_draws i))) [0..<Suc (Suc i)])"
  by (simp add: filter_concat length_concat comp_def filter_map del: upt_Suc)

lemma shuffle_count:
  assumes "distinct a" and "length a = Suc i" and "p \<le> i"
  shows "length (filter (\<lambda>js. shuffle_loop i js a ! p = x) (all_draws i))
           = (if x \<in> set a then fact i else 0)"
  using assms
proof (induction i arbitrary: a p)
  case 0
  then obtain y where "a = [y]" by (cases a) auto
  with 0 show ?case by (auto simp: shuffle_loop_0)
next
  case (Suc i)
  let ?n = "Suc (Suc i)"
  let ?rest = "\<lambda>j. butlast (a[Suc i := a ! j, j := a ! Suc i])"
  have len_rest: "\<And>j js'. j \<le> Suc i \<Longrightarrow> length (shuffle_loop i js' (?rest j)) = Suc i"
    using Suc.prems by (simp add: shuffle_loop_length)
  show ?case
  proof (cases "p = Suc i")
    case True
    have each: "length (filter (\<lambda>js'. shuffle_loop (Suc i) (j # js') a ! p = x) (all_draws i))
                  = (if a ! j = x then fact (Suc i) else 0)" if "j \<in> set [0..<?n]" for j
    proof -
      from that have j: "j \<le> Suc i" by auto
      have "filter (\<lambda>js'. shuffle_loop (Suc i) (j # js') a ! p = x) (all_draws i)
              = filter (\<lambda>js'. a ! j = x) (all_draws i)"
      proof (rule filter_cong [OF refl])
        fix js' assume "js' \<in> set (all_draws i)"
        with Suc.prems(2) j
        have "shuffle_loop (Suc i) (j # js') a = shuffle_loop i js' (?rest j) @ [a ! j]"
          by (rule shuffle_loop_top)
        then show "(shuffle_loop (Suc i) (j # js') a ! p = x) = (a ! j = x)"
          using True len_rest [OF j] by (simp add: nth_append)
      qed
      then show ?thesis by (simp add: length_all_draws)
    qed
    have "length (filter (\<lambda>js. shuffle_loop (Suc i) js a ! p = x) (all_draws (Suc i)))
            = sum_list (map (\<lambda>j. if a ! j = x then fact (Suc i) else 0) [0..<?n])"
      unfolding count_all_draws_Suc using each by (intro arg_cong [where f = sum_list] map_cong refl)
    also have "\<dots> = sum_list (map (\<lambda>y. if y = x then fact (Suc i) else 0) a)"
      using sum_list_over_indices [of "\<lambda>y. if y = x then fact (Suc i) else 0" a] Suc.prems(2)
      by simp
    also have "\<dots> = (if x \<in> set a then fact (Suc i) else 0)"
      using Suc.prems(1) by (simp add: sum_list_if_distinct del: fact_Suc)
    finally show ?thesis .
  next
    case False
    with Suc.prems(3) have p: "p \<le> i" by simp
    have each: "length (filter (\<lambda>js'. shuffle_loop (Suc i) (j # js') a ! p = x) (all_draws i))
                  = (if a ! j = x then 0 else if x \<in> set a then fact i else 0)"
      if "j \<in> set [0..<?n]" for j
    proof -
      from that have j: "j \<le> Suc i" by auto
      have "filter (\<lambda>js'. shuffle_loop (Suc i) (j # js') a ! p = x) (all_draws i)
              = filter (\<lambda>js'. shuffle_loop i js' (?rest j) ! p = x) (all_draws i)"
      proof (rule filter_cong [OF refl])
        fix js' assume "js' \<in> set (all_draws i)"
        with Suc.prems(2) j
        have "shuffle_loop (Suc i) (j # js') a = shuffle_loop i js' (?rest j) @ [a ! j]"
          by (rule shuffle_loop_top)
        then show "(shuffle_loop (Suc i) (j # js') a ! p = x)
                     = (shuffle_loop i js' (?rest j) ! p = x)"
          using p len_rest [OF j] by (simp add: nth_append)
      qed
      moreover have "length (filter (\<lambda>js'. shuffle_loop i js' (?rest j) ! p = x) (all_draws i))
                       = (if x \<in> set (?rest j) then fact i else 0)"
        using swap_rest(1,2) [OF Suc.prems(1,2) j] p by (rule Suc.IH)
      moreover have "set (?rest j) = set a - {a ! j}"
        using Suc.prems(1,2) j by (rule swap_rest(3))
      ultimately show ?thesis by auto
    qed
    have "length (filter (\<lambda>js. shuffle_loop (Suc i) js a ! p = x) (all_draws (Suc i)))
            = sum_list (map (\<lambda>j. if a ! j = x then 0 else if x \<in> set a then fact i else 0) [0..<?n])"
      unfolding count_all_draws_Suc using each by (intro arg_cong [where f = sum_list] map_cong refl)
    also have "\<dots> = sum_list (map (\<lambda>y. if y = x then 0 else if x \<in> set a then fact i else 0) a)"
      using sum_list_over_indices [of "\<lambda>y. if y = x then 0 else if x \<in> set a then fact i else 0" a]
        Suc.prems(2)
      by simp
    also have "\<dots> = (if x \<in> set a then fact (Suc i) else 0)"
      using Suc.prems(1,2) by (simp add: sum_list_if_distinct)
    finally show ?thesis .
  qed
qed

lemma shuffle_loop_map:
  assumes "js \<in> set (all_draws i)" and "i < length a"
  shows "shuffle_loop i js (map f a) = map f (shuffle_loop i js a)"
  using assms
proof (induction i arbitrary: js a)
  case 0
  show ?case by (simp add: shuffle_loop_0)
next
  case (Suc i)
  from Suc.prems(1) obtain j js' where js: "js = j # js'" and j: "j \<le> Suc i"
    and js': "js' \<in> set (all_draws i)"
    unfolding all_draws_Suc_iff by blast
  let ?a' = "a[Suc i := a ! j, j := a ! Suc i]"
  have "(map f a)[Suc i := map f a ! j, j := map f a ! Suc i] = map f ?a'"
    using j Suc.prems(2) by (simp add: map_update)
  moreover have "shuffle_loop i js' (map f ?a') = map f (shuffle_loop i js' ?a')"
    using js' Suc.prems(2) by (intro Suc.IH) simp_all
  ultimately show ?case by (simp add: js)
qed

lemma shuffle_loop_by_index:
  assumes "js \<in> set (all_draws (length a - 1))"
  shows "shuffle_loop (length a - 1) js a
           = map ((!) a) (shuffle_loop (length a - 1) js [0..<length a])"
proof (cases a)
  case Nil
  then show ?thesis by (simp add: shuffle_loop_0)
next
  case (Cons y ys)
  then have "length a - 1 < length [0..<length a]" by simp
  with assms
  have "shuffle_loop (length a - 1) js (map ((!) a) [0..<length a])
          = map ((!) a) (shuffle_loop (length a - 1) js [0..<length a])"
    by (rule shuffle_loop_map)
  then show ?thesis by (simp only: map_nth)
qed

lemma shuffle_count_position:
  assumes "distinct a" and "x \<in> set a" and "p < length a"
  shows "length (filter (\<lambda>js. shuffle_loop (length a - 1) js a ! p = x) (all_draws (length a - 1)))
           = fact (length a - 1)"
proof -
  from assms(3) obtain i where i: "length a = Suc i" by (cases "length a") simp_all
  with assms(3) have "p \<le> i" by simp
  with assms(1) i
  have "length (filter (\<lambda>js. shuffle_loop i js a ! p = x) (all_draws i))
          = (if x \<in> set a then fact i else 0)"
    by (rule shuffle_count)
  with assms(2) show ?thesis by (simp add: i)
qed

lemma shuffleArray_mset:
  assumes "\<forall>r\<in>sset rs. 0 \<le> r \<and> r < 1"
  shows "mset (shuffleArray rs array) = mset array"
proof (cases array)
  case Nil
  then show ?thesis by (simp add: shuffleArray_def shuffle_loop_0)
next
  case (Cons y ys)
  then have "length array - 1 < length array" by simp
  with drawn_indices_in_all_draws [OF assms, of "length array"]
  show ?thesis unfolding shuffleArray_def Let_def by (rule shuffle_loop_mset)
qed

lemma length_drawn_indices: "length (drawn_indices rs n) = n - 1"
  by (simp add: drawn_indices_def)

lemma drawn_indices_nth:
  assumes "k < n - 1"
  shows "drawn_indices rs n ! k = random_index (rs !! k) (n - 1 - k)"
proof -
  have "rev [1..<n] ! k = n - 1 - k"
    using assms by (simp add: rev_nth)
  with assms show ?thesis
    by (simp add: drawn_indices_def)
qed

lemma drawn_indices_eq_iff:
  assumes "\<forall>k<n - 1. 0 \<le> rs !! k"
  shows "drawn_indices rs n = js \<longleftrightarrow>
           length js = n - 1
           \<and> (\<forall>k<n - 1. real (js ! k) / real (n - k) \<le> rs !! k
                         \<and> rs !! k < real (js ! k + 1) / real (n - k))"
proof -
  have each: "drawn_indices rs n ! k = js ! k \<longleftrightarrow>
          real (js ! k) / real (n - k) \<le> rs !! k \<and> rs !! k < real (js ! k + 1) / real (n - k)"
    if "k < n - 1" for k
  proof -
    from that assms have "0 \<le> rs !! k" by simp
    then have "random_index (rs !! k) (n - 1 - k) = js ! k \<longleftrightarrow>
        real (js ! k) / real (n - 1 - k + 1) \<le> rs !! k
        \<and> rs !! k < real (js ! k + 1) / real (n - 1 - k + 1)"
      by (rule random_index_interval)
    moreover from that have "n - 1 - k + 1 = n - k" by simp
    ultimately show ?thesis
      using that by (simp only: drawn_indices_nth)
  qed
  show ?thesis
  proof
    assume eq: "drawn_indices rs n = js"
    then have "length js = n - 1" using length_drawn_indices [of rs n] by simp
    moreover have "\<forall>k<n - 1. real (js ! k) / real (n - k) \<le> rs !! k
                         \<and> rs !! k < real (js ! k + 1) / real (n - k)"
      using each eq by blast
    ultimately show "length js = n - 1
           \<and> (\<forall>k<n - 1. real (js ! k) / real (n - k) \<le> rs !! k
                         \<and> rs !! k < real (js ! k + 1) / real (n - k))" ..
  next
    assume r: "length js = n - 1
           \<and> (\<forall>k<n - 1. real (js ! k) / real (n - k) \<le> rs !! k
                         \<and> rs !! k < real (js ! k + 1) / real (n - k))"
    show "drawn_indices rs n = js"
    proof (rule nth_equalityI)
      show "length (drawn_indices rs n) = length js"
        using r by (simp add: length_drawn_indices)
    next
      fix k assume "k < length (drawn_indices rs n)"
      then have "k < n - 1" by (simp add: length_drawn_indices)
      with each r show "drawn_indices rs n ! k = js ! k" by blast
    qed
  qed
qed

lemma snth_sconst: "sconst x !! k = x"
  by (induction k) simp_all

lemma sum_div_blocks:
  assumes "0 < t"
  shows "(\<Sum>g = 0..<m * t. F (g div t)) = t * (\<Sum>j = 0..<m. (F j :: nat))"
proof (induction m)
  case 0
  show ?case by simp
next
  case (Suc m)
  have split: "{0..<Suc m * t} = {0..<m * t} \<union> {m * t..<m * t + t}"
    by (auto simp: algebra_simps)
  have disj: "{0..<m * t} \<inter> {m * t..<m * t + t} = {}" by auto
  have block: "(\<Sum>g = m * t..<m * t + t. F (g div t)) = t * F m"
  proof -
    have "\<And>g. g \<in> {m * t..<m * t + t} \<Longrightarrow> g div t = m"
      using assms by (auto simp: div_nat_eqI mult.commute)
    then have "(\<Sum>g = m * t..<m * t + t. F (g div t)) = (\<Sum>g = m * t..<m * t + t. F m)"
      by (intro sum.cong refl) simp
    then show ?thesis by simp
  qed
  have "(\<Sum>g = 0..<Suc m * t. F (g div t))
          = (\<Sum>g = 0..<m * t. F (g div t)) + (\<Sum>g = m * t..<m * t + t. F (g div t))"
    unfolding split by (rule sum.union_disjoint) (simp_all add: disj)
  also have "\<dots> = t * (\<Sum>j = 0..<m. F j) + t * F m"
    by (simp only: Suc.IH block)
  also have "\<dots> = t * (\<Sum>j = 0..<Suc m. F j)"
    by (simp add: algebra_simps)
  finally show ?case .
qed

lemma sum_list_scaled_index:
  assumes "0 < M" and "m dvd M" and "0 < m"
  shows "sum_list (map (\<lambda>g. F (g * m div M)) [0..<M])
           = (M div m) * sum_list (map (F :: nat \<Rightarrow> nat) [0..<m])"
proof -
  from assms obtain t where M: "M = m * t" and t: "0 < t"
    by (auto simp: dvd_def)
  have "\<And>g. g * m div (m * t) = g div t"
    using assms(3) by (simp add: mult.commute)
  then have "sum_list (map (\<lambda>g. F (g * m div M)) [0..<M])
               = (\<Sum>g = 0..<m * t. F (g div t))"
    by (simp add: M interv_sum_list_conv_sum_set_nat)
  also have "\<dots> = t * (\<Sum>j = 0..<m. F j)"
    using t by (rule sum_div_blocks)
  also have "\<dots> = (M div m) * sum_list (map F [0..<m])"
    using assms(3) by (simp add: M interv_sum_list_conv_sum_set_nat)
  finally show ?thesis .
qed


lemma random_index_grid:
  assumes "0 < M"
  shows "random_index (real g / real M) i = g * (i + 1) div M"
proof -
  have "real g / real M * real (i + 1) = real (g * (i + 1)) / real M"
    by (simp add: algebra_simps)
  then have "\<lfloor>real g / real M * real (i + 1)\<rfloor> = int (g * (i + 1) div M)"
    by (simp only: floor_divide_of_nat_eq)
  then show ?thesis
    by (simp add: random_index_def)
qed

lemma all_grids_length: "gs \<in> set (all_grids M i) \<Longrightarrow> length gs = i"
  by (induction i arbitrary: gs) auto

lemma length_all_grids: "length (all_grids M i) = M ^ i"
  by (induction i) (simp_all add: length_concat comp_def sum_list_triv)

lemma count_all_grids_Suc:
  "length (filter P (all_grids M (Suc i)))
     = sum_list (map (\<lambda>g. length (filter (\<lambda>gs. P (g # gs)) (all_grids M i))) [0..<M])"
  by (simp add: filter_concat length_concat comp_def filter_map)

lemma drawn_grid_Cons:
  assumes "length gs = i"
  shows "drawn_indices (grid_stream M (g # gs)) (Suc (Suc i))
           = random_index (real g / real M) (Suc i) # drawn_indices (grid_stream M gs) (Suc i)"
  using assms by (simp add: drawn_indices_def grid_stream_def)

lemma drawn_grid_Nil: "drawn_indices (grid_stream M []) (Suc 0) = []"
  by (simp add: drawn_indices_def)

lemma grid_to_draws:
  assumes "0 < M" and "fact (Suc i) dvd M"
  shows "length (filter (\<lambda>gs. P (drawn_indices (grid_stream M gs) (Suc i))) (all_grids M i))
           * fact (Suc i)
         = length (filter P (all_draws i)) * M ^ i"
  using assms(2)
proof (induction i arbitrary: P)
  case 0
  show ?case by (simp add: drawn_grid_Nil)
next
  case (Suc i)
  let ?m = "Suc (Suc i)"
  let ?F = "\<lambda>j. length (filter (\<lambda>gs. P (j # drawn_indices (grid_stream M gs) (Suc i)))
                        (all_grids M i))"
  let ?L = "\<lambda>j. length (filter (\<lambda>ds. P (j # ds)) (all_draws i))"
  have "fact (Suc i) dvd (fact ?m :: nat)"
    by (simp add: fact_dvd)
  with Suc.prems have dvd': "fact (Suc i) dvd M" by (rule dvd_trans [rotated])
  have "?m dvd (fact ?m :: nat)"
    by (intro dvd_fact) simp_all
  with Suc.prems have m: "?m dvd M" by (rule dvd_trans [rotated])
  have IH: "?F j * fact (Suc i) = ?L j * M ^ i" for j
    using Suc.IH [OF dvd', of "\<lambda>ds. P (j # ds)"] .
  have step: "length (filter (\<lambda>gs. P (drawn_indices (grid_stream M (g # gs)) ?m)) (all_grids M i))
                = ?F (g * ?m div M)" for g
  proof -
    have "filter (\<lambda>gs. P (drawn_indices (grid_stream M (g # gs)) ?m)) (all_grids M i)
            = filter (\<lambda>gs. P ((g * ?m div M) # drawn_indices (grid_stream M gs) (Suc i)))
                (all_grids M i)"
    proof (rule filter_cong [OF refl])
      fix gs assume "gs \<in> set (all_grids M i)"
      then have "length gs = i" by (rule all_grids_length)
      then have "drawn_indices (grid_stream M (g # gs)) ?m
                   = random_index (real g / real M) (Suc i) # drawn_indices (grid_stream M gs) (Suc i)"
        by (rule drawn_grid_Cons)
      also have "random_index (real g / real M) (Suc i) = g * ?m div M"
        using assms(1) by (simp add: random_index_grid)
      finally show "P (drawn_indices (grid_stream M (g # gs)) ?m)
                      = P ((g * ?m div M) # drawn_indices (grid_stream M gs) (Suc i))"
        by simp
    qed
    then show ?thesis by simp
  qed
  have "length (filter (\<lambda>gs. P (drawn_indices (grid_stream M gs) ?m)) (all_grids M (Suc i)))
          = sum_list (map (\<lambda>g. ?F (g * ?m div M)) [0..<M])"
    unfolding count_all_grids_Suc by (simp only: step)
  also have "\<dots> = (M div ?m) * sum_list (map ?F [0..<?m])"
    using assms(1) m by (intro sum_list_scaled_index) simp_all
  finally have count: "length (filter (\<lambda>gs. P (drawn_indices (grid_stream M gs) ?m))
                                 (all_grids M (Suc i)))
                         = (M div ?m) * sum_list (map ?F [0..<?m])" .
  have "(M div ?m) * sum_list (map ?F [0..<?m]) * fact ?m
          = ((M div ?m) * ?m) * (sum_list (map ?F [0..<?m]) * fact (Suc i))"
    by (simp only: fact_Suc [of "Suc i"] of_nat_id) (simp add: algebra_simps)
  also have "(M div ?m) * ?m = M"
    using m by (rule dvd_div_mult_self)
  also have "sum_list (map ?F [0..<?m]) * fact (Suc i)
               = sum_list (map (\<lambda>j. ?F j * fact (Suc i)) [0..<?m])"
    by (simp only: sum_list_mult_const)
  also have "\<dots> = sum_list (map (\<lambda>j. ?L j * M ^ i) [0..<?m])"
    by (simp only: IH)
  also have "\<dots> = sum_list (map ?L [0..<?m]) * M ^ i"
    by (simp only: sum_list_mult_const)
  also have "sum_list (map ?L [0..<?m]) = length (filter P (all_draws (Suc i)))"
    by (simp only: count_all_draws_Suc)
  finally show ?case
    unfolding count by (simp add: algebra_simps)
qed

lemma shuffleArray_grid_count:
  assumes "0 < M" and "fact (length a) dvd M" and "distinct a" and "x \<in> set a"
    and "p < length a"
  shows "length (filter (\<lambda>gs. shuffleArray (grid_stream M gs) a ! p = x)
                   (all_grids M (length a - 1))) * length a
           = M ^ (length a - 1)"
proof -
  from assms(5) obtain i where i: "length a = Suc i" by (cases "length a") simp_all
  let ?count = "length (filter (\<lambda>gs. shuffleArray (grid_stream M gs) a ! p = x) (all_grids M i))"
  have "?count * fact (Suc i)
          = length (filter (\<lambda>js. shuffle_loop i js a ! p = x) (all_draws i)) * M ^ i"
    using grid_to_draws [OF assms(1), of i "\<lambda>js. shuffle_loop i js a ! p = x"] assms(2)
    by (simp add: shuffleArray_def i)
  also have "length (filter (\<lambda>js. shuffle_loop i js a ! p = x) (all_draws i)) = fact i"
    using shuffle_count_position [OF assms(3,4,5)] by (simp add: i)
  finally have "?count * (Suc i * fact i) = fact i * M ^ i"
    by simp
  then have "fact i * (?count * Suc i) = fact i * M ^ i"
    by (simp add: algebra_simps)
  then have "?count * Suc i = M ^ i"
    by simp
  then show ?thesis by (simp add: i)
qed


lemma all_grids_bound: "gs \<in> set (all_grids M i) \<Longrightarrow> \<forall>g\<in>set gs. g < M"
  by (induction i arbitrary: gs) auto

lemma all_grids_Suc_iff:
  "gs \<in> set (all_grids M (Suc i)) \<longleftrightarrow>
     (\<exists>g gs'. gs = g # gs' \<and> g < M \<and> gs' \<in> set (all_grids M i))"
  by auto

lemma all_grids_member:
  "gs \<in> set (all_grids M i) \<longleftrightarrow> length gs = i \<and> (\<forall>g\<in>set gs. g < M)"
proof (induction i arbitrary: gs)
  case 0
  show ?case by auto
next
  case (Suc i)
  show ?case
    unfolding all_grids_Suc_iff Suc.IH by (cases gs) auto
qed

lemma grid_stream_range:
  assumes "0 < M" and "gs \<in> set (all_grids M i)"
  shows "\<forall>r\<in>sset (grid_stream M gs). 0 \<le> r \<and> r < 1"
proof -
  from assms(2) have "\<forall>g\<in>set gs. g < M" by (rule all_grids_bound)
  with assms(1) have "\<forall>r\<in>set (map (\<lambda>g. real g / real M) gs). 0 \<le> r \<and> r < 1"
    by simp
  then show ?thesis
    by (auto simp: grid_stream_def sset_shift)
qed

text \<open>
  Claim C7. Whatever values in \<open>[0, 1)\<close> the calls of \<open>Math.random()\<close> return, the result
  of \<open>shuffleArray\<close> is a permutation of the input: the same multiset of elements and the same
  length. The shuffle works on a new array, so the input array, like every array that was
  in the store, is unchanged. Each position is equally likely for each element:
  \<^item> the result is the loop run on the draws, and the \<open>k\<close>-th draw is \<open>random_index\<close> of the
    \<open>k\<close>-th random value at the loop index \<open>n - 1 - k\<close>;
  \<^item> an index \<open>j\<close> is drawn at step \<open>i\<close> exactly when the random value lies in the \<open>j\<close>-th of
    \<open>i + 1\<close> intervals of equal length, so the random values that lead to a given sequence of
    draws form a box whose \<open>k\<close>-th side has length \<open>1 / (n - k)\<close>, the same volume \<open>1 / n!\<close>
    for each of the \<open>n!\<close> sequences of draws;
  \<^item> the result is the input read through the shuffled positions, and for every original
    position \<open>e\<close> and every final position \<open>p\<close> exactly \<open>(n - 1)!\<close> of the sequences move
    \<open>e\<close> to \<open>p\<close> (for an array without repetitions: put the element \<open>x\<close> at \<open>q\<close>);
  \<^item> when every random value is one of the \<open>M\<close> equally spaced values \<open>g / M\<close> of \<open>[0, 1)\<close>,
    \<open>M\<close> a multiple of \<open>n!\<close>, then of the \<open>M ^ (n - 1)\<close> vectors of random values that
    \<open>shuffleArray\<close> can read exactly one \<open>n\<close>-th put the element \<open>y\<close> at the position \<open>t\<close>,
    for every element and every position.
\<close>

theorem shuffleArray_permutation_uniform:
  "((\<forall>r\<in>sset rs. 0 \<le> r \<and> r < 1) \<longrightarrow>
       mset (shuffleArray rs array) = mset array
     \<and> length (shuffleArray rs array) = length array
     \<and> drawn_indices rs (length array) \<in> set (all_draws (length array - 1)))
   \<and> shuffleArray rs array
       = shuffle_loop (length array - 1) (drawn_indices rs (length array)) array
   \<and> length (drawn_indices rs (length array)) = length array - 1
   \<and> (k < length array - 1 \<longrightarrow>
        drawn_indices rs (length array) ! k = random_index (rs !! k) (length array - 1 - k))
   \<and> ((\<forall>k<length array - 1. 0 \<le> rs !! k) \<longrightarrow>
        (drawn_indices rs (length array) = ds \<longleftrightarrow>
           length ds = length array - 1
           \<and> (\<forall>k<length array - 1.
                 real (ds ! k) / real (length array - k) \<le> rs !! k
                 \<and> rs !! k < real (ds ! k + 1) / real (length array - k))))
   \<and> (src < length store \<and> addr < length store \<longrightarrow>
         fst (shuffleArray_store rs src store) \<noteq> addr
       \<and> snd (shuffleArray_store rs src store) ! addr = store ! addr
       \<and> snd (shuffleArray_store rs src store) ! fst (shuffleArray_store rs src store)
           = shuffleArray rs (store ! src))
   \<and> (0 \<le> r \<longrightarrow>
        (random_index r i = j \<longleftrightarrow> real j / real (i + 1) \<le> r \<and> r < real (j + 1) / real (i + 1)))
   \<and> length (all_draws (length array - 1)) = fact (length array)
   \<and> (js \<in> set (all_draws (length array - 1)) \<longrightarrow>
        shuffle_loop (length array - 1) js array
          = map ((!) array) (shuffle_loop (length array - 1) js [0..<length array]))
   \<and> (e < length array \<and> p < length array \<longrightarrow>
        length (filter (\<lambda>js. shuffle_loop (length array - 1) js [0..<length array] ! p = e)
                  (all_draws (length array - 1)))
          = fact (length array - 1))
   \<and> (distinct array \<and> x \<in> set array \<and> q < length array \<longrightarrow>
        length (filter (\<lambda>js. shuffle_loop (length array - 1) js array ! q = x)
                  (all_draws (length array - 1)))
          = fact (length array - 1))
   \<and> length (all_grids M (length array - 1)) = M ^ (length array - 1)
   \<and> (0 < M \<and> gs \<in> set (all_grids M (length array - 1)) \<longrightarrow>
        length gs = length array - 1
        \<and> (\<forall>r\<in>sset (grid_stream M gs). 0 \<le> r \<and> r < 1))
   \<and> (0 < M \<and> fact (length array) dvd M \<and> distinct array \<and> y \<in> set array
        \<and> t < length array \<longrightarrow>
        length (filter (\<lambda>gs. shuffleArray (grid_stream M gs) array ! t = y)
                  (all_grids M (length array - 1))) * length array
          = M ^ (length array - 1))"
proof (intro conjI impI)
  assume rs: "\<forall>r\<in>sset rs. 0 \<le> r \<and> r < 1"
  then show "mset (shuffleArray rs array) = mset array"
    by (rule shuffleArray_mset)
  show "length (shuffleArray rs array) = length array"
    by (simp add: shuffleArray_def shuffle_loop_length)
  from rs show "drawn_indices rs (length array) \<in> set (all_draws (length array - 1))"
    by (rule drawn_indices_in_all_draws)
next
  show "shuffleArray rs array
       = shuffle_loop (length array - 1) (drawn_indices rs (length array)) array"
    by (simp add: shuffleArray_def)
next
  show "length (drawn_indices rs (length array)) = length array - 1"
    by (rule length_drawn_indices)
next
  assume "k < length array - 1"
  then show "drawn_indices rs (length array) ! k
               = random_index (rs !! k) (length array - 1 - k)"
    by (rule drawn_indices_nth)
next
  assume "\<forall>k<length array - 1. 0 \<le> rs !! k"
  then show "drawn_indices rs (length array) = ds \<longleftrightarrow>
           length ds = length array - 1
           \<and> (\<forall>k<length array - 1.
                 real (ds ! k) / real (length array - k) \<le> rs !! k
                 \<and> rs !! k < real (ds ! k + 1) / real (length array - k))"
    by (rule drawn_indices_eq_iff)
next
  assume "src < length store \<and> addr < length store"
  then show "fst (shuffleArray_store rs src store) \<noteq> addr"
    and "snd (shuffleArray_store rs src store) ! addr = store ! addr"
    and "snd (shuffleArray_store rs src store) ! fst (shuffleArray_store rs src store)
           = shuffleArray rs (store ! src)"
    by (simp_all add: shuffleArray_store_def shuffleArray_def Let_def nth_append)
next
  assume "0 \<le> r"
  then show "random_index r i = j \<longleftrightarrow> real j / real (i + 1) \<le> r \<and> r < real (j + 1) / real (i + 1)"
    by (rule random_index_interval)
next
  show "length (all_draws (length array - 1)) = fact (length array)"
    by (cases array) (simp_all add: length_all_draws del: all_draws.simps)
next
  assume "js \<in> set (all_draws (length array - 1))"
  then show "shuffle_loop (length array - 1) js array
          = map ((!) array) (shuffle_loop (length array - 1) js [0..<length array])"
    by (rule shuffle_loop_by_index)
next
  assume "e < length array \<and> p < length array"
  then show "length (filter (\<lambda>js. shuffle_loop (length array - 1) js [0..<length array] ! p = e)
                  (all_draws (length array - 1)))
          = fact (length array - 1)"
    using shuffle_count_position [of "[0..<length array]" e p] by simp
next
  assume "distinct array \<and> x \<in> set array \<and> q < length array"
  then show "length (filter (\<lambda>js. shuffle_loop (length array - 1) js array ! q = x)
                  (all_draws (length array - 1)))
          = fact (length array - 1)"
    using shuffle_count_position [of array x q] by blast
next
  show "length (all_grids M (length array - 1)) = M ^ (length array - 1)"
    by (rule length_all_grids)
next
  assume h: "0 < M \<and> gs \<in> set (all_grids M (length array - 1))"
  then show "length gs = length array - 1"
    using all_grids_length [of gs M "length array - 1"] by blast
  from h show "\<forall>r\<in>sset (grid_stream M gs). 0 \<le> r \<and> r < 1"
    using grid_stream_range [of M gs "length array - 1"] by blast
next
  assume "0 < M \<and> fact (length array) dvd M \<and> distinct array \<and> y \<in> set array
        \<and> t < length array"
  then show "length (filter (\<lambda>gs. shuffleArray (grid_stream M gs) array ! t = y)
                  (all_grids M (length array - 1))) * length array
          = M ^ (length array - 1)"
    using shuffleArray_grid_count [of M array y t] by blast
qed

theorem shuffleArray_permutation_uniform_witness:
  "mset (shuffleArray (sconst (1 / 2)) [10, 20, 30 :: nat]) = mset [10, 20, 30 :: nat]
   \<and> drawn_indices (sconst (1 / 2)) (length [10, 20, 30 :: nat]) = [1, 1]
   \<and> drawn_indices (sconst (1 / 2)) (length [10, 20, 30 :: nat]) ! 0
       = random_index (sconst (1 / 2) !! 0) (length [10, 20, 30 :: nat] - 1 - 0)
   \<and> shuffleArray (sconst (1 / 2)) [10, 20, 30 :: nat] = [10, 30, 20]
   \<and> snd (shuffleArray_store (sconst (1 / 2)) 0 [[10, 20, 30 :: nat]]) ! 0
       = [[10, 20, 30]] ! 0
   \<and> random_index (1 / 2) 2 = 1
   \<and> length (all_draws (length [10, 20, 30 :: nat] - 1)) = 6
   \<and> length (filter (\<lambda>js. shuffle_loop (length [10, 20, 30 :: nat] - 1) js
                               [0..<length [10, 20, 30 :: nat]] ! 1 = 0)
               (all_draws (length [10, 20, 30 :: nat] - 1))) = 2
   \<and> length (filter (\<lambda>js. shuffle_loop (length [10, 20, 30 :: nat] - 1) js [10, 20, 30 :: nat] ! 2 = 10)
               (all_draws (length [10, 20, 30 :: nat] - 1))) = 2
   \<and> length (filter (\<lambda>gs. shuffleArray (grid_stream 6 gs) [10, 20, 30 :: nat] ! 2 = 10)
               (all_grids 6 (length [10, 20, 30 :: nat] - 1))) * length [10, 20, 30 :: nat]
       = 6 ^ (length [10, 20, 30 :: nat] - 1)
   \<and> shuffle_loop (length [10, 20, 30 :: nat] - 1) [1, 1] [10, 20, 30 :: nat]
       = map ((!) [10, 20, 30 :: nat])
           (shuffle_loop (length [10, 20, 30 :: nat] - 1) [1, 1] [0..<length [10, 20, 30 :: nat]])
   \<and> length [3, 3 :: nat] = length [10, 20, 30 :: nat] - 1"
proof -
  have fact3: "fact (length [10, 20, 30 :: nat]) = (6::nat)"
    and fact2: "fact (length [10, 20, 30 :: nat] - 1) = (2::nat)"
    by (simp_all add: fact_numeral)
  have h1: "\<forall>r\<in>sset (sconst (1 / 2)). 0 \<le> r \<and> r < (1::real)"
    and h2: "(0::nat) < length [[10, 20, 30 :: nat]] \<and> (0::nat) < length [[10, 20, 30 :: nat]]"
    and h3: "(0::real) \<le> 1 / 2"
    and h4: "real 1 / real (2 + 1) \<le> 1 / 2 \<and> (1 / 2 :: real) < real (1 + 1) / real (2 + 1)"
    and h6: "(0::nat) < length [10, 20, 30 :: nat] \<and> 1 < length [10, 20, 30 :: nat]"
    and h7: "distinct [10, 20, 30 :: nat] \<and> 10 \<in> set [10, 20, 30 :: nat]
               \<and> 2 < length [10, 20, 30 :: nat]"
    and h8: "(0::nat) < length [10, 20, 30 :: nat] - 1"
    and h9: "\<forall>k<length [10, 20, 30 :: nat] - 1. (0::real) \<le> sconst (1 / 2) !! k"
    by (simp_all add: snth_sconst)
  have h10: "length [1, 1 :: nat] = length [10, 20, 30 :: nat] - 1
           \<and> (\<forall>k<length [10, 20, 30 :: nat] - 1.
                 real ([1, 1] ! k) / real (length [10, 20, 30 :: nat] - k) \<le> sconst (1 / 2) !! k
                 \<and> sconst (1 / 2) !! k < real ([1, 1] ! k + 1) / real (length [10, 20, 30 :: nat] - k))"
    by (auto simp: snth_sconst less_Suc_eq)
  note inst = shuffleArray_permutation_uniform
    [where rs = "sconst (1 / 2)" and array = "[10, 20, 30 :: nat]" and k = 0 and ds = "[1, 1]"
       and src = 0 and store = "[[10, 20, 30 :: nat]]" and addr = 0 and r = "1 / 2" and i = 2
       and j = 1 and js = "[1, 1]" and e = 0 and p = 1 and x = 10 and q = 2
       and M = 6 and gs = "[3, 3]" and y = 10 and t = 2]
  note r1 = inst [THEN conjunct2]
  note r2 = r1 [THEN conjunct2]
  note r3 = r2 [THEN conjunct2]
  note r4 = r3 [THEN conjunct2]
  note r5 = r4 [THEN conjunct2]
  note r6 = r5 [THEN conjunct2]
  note r7 = r6 [THEN conjunct2]
  note r8 = r7 [THEN conjunct2]
  note r9 = r8 [THEN conjunct2]
  note r10 = r9 [THEN conjunct2]
  note r11 = r10 [THEN conjunct2]
  note r12 = r11 [THEN conjunct2]
  have h11: "(0::nat) < 6 \<and> fact (length [10, 20, 30 :: nat]) dvd (6::nat)
               \<and> distinct [10, 20, 30 :: nat] \<and> 10 \<in> set [10, 20, 30 :: nat]
               \<and> 2 < length [10, 20, 30 :: nat]"
    unfolding fact3 by simp
  have grid: "length (filter (\<lambda>gs. shuffleArray (grid_stream 6 gs) [10, 20, 30 :: nat] ! 2 = 10)
               (all_grids 6 (length [10, 20, 30 :: nat] - 1))) * length [10, 20, 30 :: nat]
       = 6 ^ (length [10, 20, 30 :: nat] - 1)"
    by (rule r12 [THEN conjunct2, THEN mp, OF h11])
  have a: "mset (shuffleArray (sconst (1 / 2)) [10, 20, 30 :: nat]) = mset [10, 20, 30 :: nat]"
    by (rule inst [THEN conjunct1, THEN mp, OF h1, THEN conjunct1])
  have b: "drawn_indices (sconst (1 / 2)) (length [10, 20, 30 :: nat]) = [1, 1]"
    by (rule r4 [THEN conjunct1, THEN mp, OF h9, THEN iffD2, OF h10])
  have b': "drawn_indices (sconst (1 / 2)) (length [10, 20, 30 :: nat]) ! 0
       = random_index (sconst (1 / 2) !! 0) (length [10, 20, 30 :: nat] - 1 - 0)"
    by (rule r3 [THEN conjunct1, THEN mp, OF h8])
  have "shuffleArray (sconst (1 / 2)) [10, 20, 30 :: nat]
          = shuffle_loop (length [10, 20, 30 :: nat] - 1)
              (drawn_indices (sconst (1 / 2)) (length [10, 20, 30 :: nat])) [10, 20, 30]"
    by (rule r1 [THEN conjunct1])
  also have "\<dots> = [10, 30, 20]"
    unfolding b by (simp add: numeral_2_eq_2)
  finally have c: "shuffleArray (sconst (1 / 2)) [10, 20, 30 :: nat] = [10, 30, 20]" .
  have d: "snd (shuffleArray_store (sconst (1 / 2)) 0 [[10, 20, 30 :: nat]]) ! 0
             = [[10, 20, 30]] ! 0"
    by (rule r5 [THEN conjunct1, THEN mp, OF h2, THEN conjunct2, THEN conjunct1])
  have e: "random_index (1 / 2) 2 = 1"
    by (rule r6 [THEN conjunct1, THEN mp, OF h3, THEN iffD2, OF h4])
  have f: "length (all_draws (length [10, 20, 30 :: nat] - 1)) = 6"
    using r7 [THEN conjunct1] unfolding fact3 .
  have g: "length (filter (\<lambda>js. shuffle_loop (length [10, 20, 30 :: nat] - 1) js
                               [0..<length [10, 20, 30 :: nat]] ! 1 = 0)
               (all_draws (length [10, 20, 30 :: nat] - 1))) = 2"
    using r9 [THEN conjunct1, THEN mp, OF h6] unfolding fact2 .
  have h: "length (filter (\<lambda>js. shuffle_loop (length [10, 20, 30 :: nat] - 1) js [10, 20, 30 :: nat] ! 2 = 10)
               (all_draws (length [10, 20, 30 :: nat] - 1))) = 2"
    using r10 [THEN conjunct1, THEN mp, OF h7] unfolding fact2 .
  have "drawn_indices (sconst (1 / 2)) (length [10, 20, 30 :: nat])
          \<in> set (all_draws (length [10, 20, 30 :: nat] - 1))"
    by (rule inst [THEN conjunct1, THEN mp, OF h1, THEN conjunct2, THEN conjunct2])
  then have h12: "[1, 1] \<in> set (all_draws (length [10, 20, 30 :: nat] - 1))"
    unfolding b .
  have by_index: "shuffle_loop (length [10, 20, 30 :: nat] - 1) [1, 1] [10, 20, 30 :: nat]
          = map ((!) [10, 20, 30 :: nat])
              (shuffle_loop (length [10, 20, 30 :: nat] - 1) [1, 1] [0..<length [10, 20, 30 :: nat]])"
    by (rule r8 [THEN conjunct1, THEN mp, OF h12])
  have h13: "(0::nat) < 6 \<and> [3, 3] \<in> set (all_grids 6 (length [10, 20, 30 :: nat] - 1))"
    by (simp add: all_grids_member del: all_grids.simps)
  have len_grid: "length [3, 3 :: nat] = length [10, 20, 30 :: nat] - 1"
    by (rule r12 [THEN conjunct1, THEN mp, OF h13, THEN conjunct1])
  show ?thesis
    by (rule conjI [OF a conjI [OF b conjI [OF b' conjI [OF c conjI [OF d conjI [OF e
          conjI [OF f conjI [OF g conjI [OF h conjI [OF grid conjI [OF by_index len_grid]]]]]]]]]]])
qed

end
